theory Spec2Isabelle
  imports Complex_Main "HOL-Library.Multiset" "HOL-Library.Log_Nat"
begin

section \<open>The bounded batch runner of the Photoshoot component\<close>

text \<open>
  Source: \<^verbatim>\<open>src/components/Photoshoot.tsx\<close>, \<^verbatim>\<open>handleGenerateClick\<close>,
  \<^verbatim>\<open>processStyle\<close> and \<^verbatim>\<open>handleRegeneratePhoto\<close>. The component runs on a
  single-threaded event loop: code between two \<^verbatim>\<open>await\<close>s runs atomically, and
  the order in which awaited promises settle is chosen by the environment. The model is
  therefore a transition system whose events are the atomic code segments; every
  property below is proved for every order of events.
\<close>

datatype ImageStatus = Pending | Done | Error

record GeneratedImage =
  status :: ImageStatus
  url :: "string option"
  error :: "string option"

record style =
  style_id :: string
  prompt :: string

type_synonym images = "string \<rightharpoonup> GeneratedImage"

text \<open>What a \<^verbatim>\<open>catch (err)\<close> receives: an \<^verbatim>\<open>Error\<close> object with its message, or
  any other thrown value.\<close>

datatype thrown = ErrorObject string | OtherValue

text \<open>\<^verbatim>\<open>err instanceof Error ? err.message : "An unknown error occurred."\<close>\<close>

definition errorMessage :: "thrown \<Rightarrow> string" where
  "errorMessage err =
     (case err of ErrorObject m \<Rightarrow> m | OtherValue \<Rightarrow> ''An unknown error occurred.'')"

text \<open>The result of the body of the \<^verbatim>\<open>try\<close> block (\<^verbatim>\<open>constructApiPayload\<close>,
  \<^verbatim>\<open>generateStyledImage\<close>, \<^verbatim>\<open>addImageToLibrary\<close>): it yields the result URL or it
  throws. Which of the two happens is decided by the environment.\<close>

datatype outcome = Resolved string | Rejected thrown

definition pendingImage :: GeneratedImage where
  "pendingImage = \<lparr>status = Pending, url = None, error = None\<rparr>"

text \<open>The entry that the \<^verbatim>\<open>try\<close> or the \<^verbatim>\<open>catch\<close> branch writes.\<close>

definition settledImage :: "outcome \<Rightarrow> GeneratedImage" where
  "settledImage out =
     (case out of
        Resolved resultUrl \<Rightarrow> \<lparr>status = Done, url = Some resultUrl, error = None\<rparr>
      | Rejected err \<Rightarrow> \<lparr>status = Error, url = None, error = Some (errorMessage err)\<rparr>)"

text \<open>The part of \<^verbatim>\<open>processStyle\<close> after its awaits: the functional update
  \<^verbatim>\<open>setGeneratedImages(prev => ({...prev, [style.id]: ...}))\<close>.\<close>

definition processStyle :: "style \<Rightarrow> outcome \<Rightarrow> images \<Rightarrow> images" where
  "processStyle st out prev = prev(style_id st \<mapsto> settledImage out)"

text \<open>A worker is the async arrow function given to \<^verbatim>\<open>map\<close>: it is at the head of its
  \<^verbatim>\<open>while\<close> loop, or suspended in \<^verbatim>\<open>await processStyle(style)\<close>, or it has left
  the loop.\<close>

datatype worker = AtLoopHead | Awaiting style | Exited

record runner =
  generatedImages :: images
  stylesQueue :: "style list"
  workers :: "worker list"
  inFlight :: "style list"

text \<open>\<^verbatim>\<open>inFlight\<close> is an observer added by the model: the calls of
  \<^verbatim>\<open>processStyle\<close> that have started and not yet settled.\<close>

datatype event = Resume nat | Settle nat

text \<open>Worker \<open>i\<close> runs from the loop head to its next suspension:
  \<^verbatim>\<open>while (stylesQueue.length > 0) { const style = stylesQueue.shift(); if (style) { await processStyle(style); } }\<close>.
  The queue holds objects, which are truthy, so the inner test always succeeds.\<close>

definition resume :: "nat \<Rightarrow> runner \<Rightarrow> runner" where
  "resume i s =
     (case stylesQueue s of
        [] \<Rightarrow> s\<lparr>workers := (workers s)[i := Exited]\<rparr>
      | st # rest \<Rightarrow>
          s\<lparr>stylesQueue := rest,
            workers := (workers s)[i := Awaiting st],
            inFlight := st # inFlight s\<rparr>)"

text \<open>The call awaited by worker \<open>i\<close> settles: the map is updated and the worker is back
  at the loop head.\<close>

definition settle :: "(style \<Rightarrow> outcome) \<Rightarrow> nat \<Rightarrow> style \<Rightarrow> runner \<Rightarrow> runner" where
  "settle work i st s =
     s\<lparr>generatedImages := processStyle st (work st) (generatedImages s),
       workers := (workers s)[i := AtLoopHead],
       inFlight := remove1 st (inFlight s)\<rparr>"

definition step :: "(style \<Rightarrow> outcome) \<Rightarrow> event \<Rightarrow> runner \<Rightarrow> runner option" where
  "step work ev s =
     (case ev of
        Resume i \<Rightarrow>
          (if i < length (workers s) \<and> workers s ! i = AtLoopHead
           then Some (resume i s) else None)
      | Settle i \<Rightarrow>
          (if i < length (workers s)
           then (case workers s ! i of
                   Awaiting st \<Rightarrow> Some (settle work i st s)
                 | _ \<Rightarrow> None)
           else None))"

fun run :: "(style \<Rightarrow> outcome) \<Rightarrow> event list \<Rightarrow> runner \<Rightarrow> runner option" where
  "run work [] s = Some s"
| "run work (ev # evs) s =
     (case step work ev s of None \<Rightarrow> None | Some s' \<Rightarrow> run work evs s')"

text \<open>\<^verbatim>\<open>!uploadedImage\<close> for a value of type \<^verbatim>\<open>string | null\<close>: true for
  \<^verbatim>\<open>null\<close> and for the empty string.\<close>

definition falsy :: "string option \<Rightarrow> bool" where
  "falsy v = (v = None \<or> v = Some [])"

text \<open>\<^verbatim>\<open>ALL_PHOTO_STYLES.filter(style => selectedStyles.includes(style.id))\<close>\<close>

definition stylesToGenerate :: "style list \<Rightarrow> string list \<Rightarrow> style list" where
  "stylesToGenerate ALL_PHOTO_STYLES selectedStyles =
     filter (\<lambda>st. style_id st \<in> set selectedStyles) ALL_PHOTO_STYLES"

text \<open>\<^verbatim>\<open>stylesToGenerate.forEach(style => { initialImages[style.id] = { status: 'pending' }; })\<close>\<close>

fun initialImages :: "style list \<Rightarrow> images \<Rightarrow> images" where
  "initialImages [] m = m"
| "initialImages (st # sts) m = initialImages sts (m(style_id st \<mapsto> pendingImage))"

text \<open>\<^verbatim>\<open>Array(concurrencyLimit).fill(null).map(async () => ...)\<close> calls the workers one
  after the other; each runs synchronously up to its first \<^verbatim>\<open>await\<close>.\<close>

fun spawn :: "nat list \<Rightarrow> runner \<Rightarrow> runner" where
  "spawn [] s = s"
| "spawn (i # is) s = spawn is (resume i s)"

text \<open>\<^verbatim>\<open>handleGenerateClick\<close> up to \<^verbatim>\<open>await Promise.all(workers)\<close>. \<open>None\<close> is the
  early return of the guard. The source fixes \<^verbatim>\<open>concurrencyLimit = 2\<close>; it is a
  parameter here. The style table \<^verbatim>\<open>ALL_PHOTO_STYLES\<close> is a parameter as well. The
  flags \<^verbatim>\<open>isLoading\<close> and \<^verbatim>\<open>appState\<close>, which only drive the display, are left
  out.\<close>

definition handleGenerateClick ::
  "nat \<Rightarrow> style list \<Rightarrow> string option \<Rightarrow> string list \<Rightarrow> runner option" where
  "handleGenerateClick concurrencyLimit ALL_PHOTO_STYLES uploadedImage selectedStyles =
     (if falsy uploadedImage \<or> length selectedStyles = 0 then None
      else let sts = stylesToGenerate ALL_PHOTO_STYLES selectedStyles in
        Some (spawn [0..<concurrencyLimit]
          \<lparr>generatedImages = initialImages sts Map.empty,
           stylesQueue = sts,
           workers = replicate concurrencyLimit AtLoopHead,
           inFlight = []\<rparr>))"

text \<open>\<^verbatim>\<open>await Promise.all(workers)\<close> continues once every worker has left its loop.\<close>

definition batchCompleted :: "runner \<Rightarrow> bool" where
  "batchCompleted s = list_all (\<lambda>w. w = Exited) (workers s)"

definition terminal :: "GeneratedImage option \<Rightarrow> bool" where
  "terminal g = (case g of None \<Rightarrow> False | Some x \<Rightarrow> status x = Done \<or> status x = Error)"

text \<open>\<^verbatim>\<open>handleRegeneratePhoto\<close> up to its first \<^verbatim>\<open>await\<close>: \<open>None\<close> is one of the two
  early returns, otherwise the style found and the map with the entry reset to pending.\<close>

definition handleRegeneratePhoto ::
  "style list \<Rightarrow> string option \<Rightarrow> string \<Rightarrow> images \<Rightarrow> (style \<times> images) option" where
  "handleRegeneratePhoto ALL_PHOTO_STYLES uploadedImage photoId imgs =
     (if falsy uploadedImage
         \<or> (case imgs photoId of None \<Rightarrow> False | Some g \<Rightarrow> status g = Pending)
      then None
      else (case find (\<lambda>s. style_id s = photoId) ALL_PHOTO_STYLES of
              None \<Rightarrow> None
            | Some st \<Rightarrow> Some (st, imgs(photoId \<mapsto> pendingImage))))"

text \<open>The rest of \<^verbatim>\<open>handleRegeneratePhoto\<close>: the \<^verbatim>\<open>try\<close> or the \<^verbatim>\<open>catch\<close> branch
  applied to the map as it is when the single call settles.\<close>

definition handleRegeneratePhoto_settled :: "string \<Rightarrow> outcome \<Rightarrow> images \<Rightarrow> images" where
  "handleRegeneratePhoto_settled photoId out prev = prev(photoId \<mapsto> settledImage out)"

subsection \<open>Invariants of the runner\<close>

definition awaited :: "worker list \<Rightarrow> style list" where
  "awaited ws = concat (map (\<lambda>w. case w of Awaiting st \<Rightarrow> [st] | _ \<Rightarrow> []) ws)"

definition unsettled :: "runner \<Rightarrow> style multiset" where
  "unsettled s = mset (stylesQueue s) + mset (awaited (workers s))"

definition batch_inv :: "style list \<Rightarrow> (style \<Rightarrow> outcome) \<Rightarrow> runner \<Rightarrow> bool" where
  "batch_inv jobs work s \<longleftrightarrow>
     unsettled s \<subseteq># mset jobs \<and>
     (\<forall>st\<in>set jobs. generatedImages s (style_id st) =
        Some (if st \<in># unsettled s then pendingImage else settledImage (work st))) \<and>
     (Exited \<in> set (workers s) \<longrightarrow> stylesQueue s = []) \<and>
     dom (generatedImages s) = style_id ` set jobs"

definition flight_inv :: "nat \<Rightarrow> runner \<Rightarrow> bool" where
  "flight_inv c s \<longleftrightarrow> length (workers s) = c \<and> mset (inFlight s) = mset (awaited (workers s))"

text \<open>A bound on the number of events that a state can still take.\<close>

definition workerWeight :: "worker \<Rightarrow> nat" where
  "workerWeight w = (case w of AtLoopHead \<Rightarrow> 1 | Awaiting st \<Rightarrow> 2 | Exited \<Rightarrow> 0)"

definition remainingSteps :: "runner \<Rightarrow> nat" where
  "remainingSteps s = 2 * length (stylesQueue s) + sum_list (map workerWeight (workers s))"

subsection \<open>A concrete batch\<close>

definition demoStyles :: "style list" where
  "demoStyles =
     [\<lparr>style_id = ''smiling_portrait'', prompt = ''p1''\<rparr>,
      \<lparr>style_id = ''side_profile'', prompt = ''p2''\<rparr>,
      \<lparr>style_id = ''walking_pose'', prompt = ''p3''\<rparr>]"

definition demoWork :: "style \<Rightarrow> outcome" where
  "demoWork st =
     (if style_id st = ''side_profile'' then Rejected (ErrorObject ''quota exceeded'')
      else Resolved (''data:image/png;'' @ style_id st))"

definition demoSchedule :: "event list" where
  "demoSchedule = [Settle 1, Resume 1, Settle 0, Resume 0, Settle 1, Resume 1]"

definition demoSelected :: "string list" where
  "demoSelected = [''walking_pose'', ''smiling_portrait'', ''side_profile'']"

definition demoStart :: runner where
  "demoStart = the (handleGenerateClick 2 demoStyles (Some ''data:photo'') demoSelected)"

definition demoFinal :: runner where
  "demoFinal = the (run demoWork demoSchedule demoStart)"

section \<open>JavaScript numbers\<close>

text \<open>
  The geometry utilities compute with the JavaScript \<^verbatim>\<open>number\<close> type, the IEEE 754
  doubles. Its special values decide several branches (\<^verbatim>\<open>isNaN\<close>, a division by zero
  that yields \<^verbatim>\<open>Infinity\<close>), so they are part of the model: \<open>NaN\<close>, the two
  infinities and the negative zero; \<open>Fin 0\<close> is the positive zero. A finite value is
  held as the rational it denotes. Every arithmetic operation and every conversion of a
  literal rounds its exact result to the nearest double.
\<close>

datatype jsnum = NaN | PosInf | NegInf | NegZero | Fin rat

definition isNaN :: "jsnum \<Rightarrow> bool" where
  "isNaN x = (x = NaN)"

definition is_inf :: "jsnum \<Rightarrow> bool" where
  "is_inf x = (x = PosInf \<or> x = NegInf)"

definition is_zero :: "jsnum \<Rightarrow> bool" where
  "is_zero x = (x = NegZero \<or> x = Fin 0)"

definition signbit :: "jsnum \<Rightarrow> bool" where
  "signbit x = (case x of NegInf \<Rightarrow> True | NegZero \<Rightarrow> True | Fin r \<Rightarrow> r < 0 | _ \<Rightarrow> False)"

definition val :: "jsnum \<Rightarrow> rat" where
  "val x = (case x of Fin r \<Rightarrow> r | _ \<Rightarrow> 0)"

definition signed_inf :: "bool \<Rightarrow> jsnum" where
  "signed_inf neg = (if neg then NegInf else PosInf)"

definition signed_fin :: "bool \<Rightarrow> rat \<Rightarrow> jsnum" where
  "signed_fin neg r = (if r = 0 then (if neg then NegZero else Fin 0) else Fin r)"

subsection \<open>Rounding to a double\<close>

text \<open>
  For a positive \<open>x\<close>, \<open>ilog2 x\<close> is the integer \<open>e\<close> with \<open>2^e \<le> x < 2^(e+1)\<close>.
  The exponent of a double is at least \<open>-1022\<close> (below that the doubles are
  subnormal and share the spacing \<open>2^(-1074)\<close>), and neighbouring doubles of exponent
  \<open>e\<close> lie \<open>2^(e-52)\<close> apart: a significand has 53 bits.
\<close>

definition ilog2 :: "rat \<Rightarrow> int" where
  "ilog2 x =
     (let (a, b) = quotient_of x; d = bitlen a - bitlen b
      in if 2 powi d \<le> x then d else d - 1)"

definition exponent :: "rat \<Rightarrow> int" where
  "exponent x = max (ilog2 \<bar>x\<bar>) (- 1022)"

definition ulp :: "rat \<Rightarrow> rat" where
  "ulp x = 2 powi (exponent x - 52)"

text \<open>The integer nearest to \<open>m\<close>, the even one of the two when \<open>m\<close> lies half way.\<close>

definition round_half_even :: "rat \<Rightarrow> int" where
  "round_half_even m =
     (let f = \<lfloor>m\<rfloor>; d = m - of_int f
      in if d < 1 / 2 then f else if 1 / 2 < d then f + 1 else if even f then f else f + 1)"

text \<open>Round to nearest, ties to even, with an unbounded exponent range upwards.\<close>

definition fl :: "rat \<Rightarrow> rat" where
  "fl x = of_int (round_half_even (x / ulp x)) * ulp x"

text \<open>The double that an exact result \<open>x\<close> is delivered as. A rounded magnitude of
  \<open>2^1024\<close> or more overflows to an infinity. \<open>neg\<close> is the sign of the exact result;
  it is what distinguishes the two zeros when the result is zero or underflows to
  zero.\<close>

definition double_of :: "bool \<Rightarrow> rat \<Rightarrow> jsnum" where
  "double_of neg x =
     (let y = fl x in if 2 ^ 1024 \<le> \<bar>y\<bar> then signed_inf neg else signed_fin neg y)"

text \<open>\<open>y\<close> approximates \<open>x\<close> with a relative error of at most \<open>k\<close>.\<close>

definition rel_err :: "rat \<Rightarrow> rat \<Rightarrow> rat \<Rightarrow> bool" where
  "rel_err k x y \<longleftrightarrow> \<bar>y - x\<bar> \<le> k * \<bar>x\<bar>"

subsection \<open>Arithmetic\<close>

text \<open>\<^verbatim>\<open>a * b\<close>\<close>

definition js_mul :: "jsnum \<Rightarrow> jsnum \<Rightarrow> jsnum" where
  "js_mul a b =
     (if a = NaN \<or> b = NaN then NaN
      else if is_inf a \<or> is_inf b
        then (if is_zero a \<or> is_zero b then NaN else signed_inf (signbit a \<noteq> signbit b))
      else double_of (signbit a \<noteq> signbit b) (val a * val b))"

text \<open>\<^verbatim>\<open>a / b\<close>\<close>

definition js_div :: "jsnum \<Rightarrow> jsnum \<Rightarrow> jsnum" where
  "js_div a b =
     (if a = NaN \<or> b = NaN then NaN
      else if is_inf a
        then (if is_inf b then NaN else signed_inf (signbit a \<noteq> signbit b))
      else if is_inf b then signed_fin (signbit a \<noteq> signbit b) 0
      else if is_zero b
        then (if is_zero a then NaN else signed_inf (signbit a \<noteq> signbit b))
      else double_of (signbit a \<noteq> signbit b) (val a / val b))"

text \<open>\<^verbatim>\<open>a + b\<close>: an exact sum of zero is the positive zero, unless both operands
  are the negative zero.\<close>

definition js_add :: "jsnum \<Rightarrow> jsnum \<Rightarrow> jsnum" where
  "js_add a b =
     (if a = NaN \<or> b = NaN then NaN
      else if is_inf a then (if is_inf b \<and> a \<noteq> b then NaN else a)
      else if is_inf b then b
      else if a = NegZero \<and> b = NegZero then NegZero
      else let s = val a + val b in if s = 0 then Fin 0 else double_of (s < 0) s)"

definition js_neg :: "jsnum \<Rightarrow> jsnum" where
  "js_neg x =
     (case x of
        NaN \<Rightarrow> NaN | PosInf \<Rightarrow> NegInf | NegInf \<Rightarrow> PosInf | NegZero \<Rightarrow> Fin 0
      | Fin r \<Rightarrow> (if r = 0 then NegZero else Fin (- r)))"

text \<open>\<^verbatim>\<open>a - b\<close>\<close>

definition js_sub :: "jsnum \<Rightarrow> jsnum \<Rightarrow> jsnum" where
  "js_sub a b = js_add a (js_neg b)"

text \<open>\<^verbatim>\<open>Math.abs(x)\<close>\<close>

definition js_abs :: "jsnum \<Rightarrow> jsnum" where
  "js_abs x =
     (case x of
        NaN \<Rightarrow> NaN | PosInf \<Rightarrow> PosInf | NegInf \<Rightarrow> PosInf | NegZero \<Rightarrow> Fin 0
      | Fin r \<Rightarrow> Fin \<bar>r\<bar>)"

text \<open>\<^verbatim>\<open>a < b\<close> and \<^verbatim>\<open>a > b\<close>: false as soon as one side is \<open>NaN\<close>; the two zeros
  compare equal.\<close>

definition js_lt :: "jsnum \<Rightarrow> jsnum \<Rightarrow> bool" where
  "js_lt a b =
     (if a = NaN \<or> b = NaN then False
      else if a = PosInf \<or> b = NegInf then False
      else if a = NegInf \<or> b = PosInf then True
      else val a < val b)"

definition js_gt :: "jsnum \<Rightarrow> jsnum \<Rightarrow> bool" where
  "js_gt a b = js_lt b a"

text \<open>\<^verbatim>\<open>a === b\<close> on numbers.\<close>

definition js_strict_eq :: "jsnum \<Rightarrow> jsnum \<Rightarrow> bool" where
  "js_strict_eq a b =
     (if a = NaN \<or> b = NaN then False
      else if is_zero a \<and> is_zero b then True
      else a = b)"

text \<open>\<^verbatim>\<open>Math.round(x)\<close>: the integer nearest to \<open>x\<close>, a tie going up; a negative \<open>x\<close>
  that rounds to zero gives the negative zero. For a double \<open>x\<close> that integer is a
  double, and so is the one of \<^verbatim>\<open>Math.floor(x)\<close>.\<close>

definition js_round :: "jsnum \<Rightarrow> jsnum" where
  "js_round x =
     (case x of
        Fin r \<Rightarrow> (let n = \<lfloor>r + 1 / 2\<rfloor> in if n = 0 \<and> r < 0 then NegZero else Fin (of_int n))
      | other \<Rightarrow> other)"

text \<open>\<^verbatim>\<open>Math.floor(x)\<close>\<close>

definition js_floor :: "jsnum \<Rightarrow> jsnum" where
  "js_floor x = (case x of Fin r \<Rightarrow> Fin (of_int \<lfloor>r\<rfloor>) | other \<Rightarrow> other)"

text \<open>The conversion of a number to the Web IDL type \<^verbatim>\<open>unsigned long\<close>: truncate
  towards zero, then reduce modulo \<open>2^32\<close>; \<open>NaN\<close>, the zeros and the infinities give 0.\<close>

definition to_unsigned_long :: "jsnum \<Rightarrow> nat" where
  "to_unsigned_long x =
     (case x of
        Fin r \<Rightarrow> nat ((if 0 \<le> r then \<lfloor>r\<rfloor> else \<lceil>r\<rceil>) mod 2 ^ 32)
      | _ \<Rightarrow> 0)"

text \<open>Assigning to \<^verbatim>\<open>canvas.width\<close> or \<^verbatim>\<open>canvas.height\<close>: the attribute reflects
  a non-negative integer; a converted value above \<open>2^31 - 1\<close> is replaced by the default
  (300 for the width, 150 for the height).\<close>

definition canvas_dimension :: "nat \<Rightarrow> jsnum \<Rightarrow> nat" where
  "canvas_dimension dflt x =
     (let n = to_unsigned_long x in if n \<le> 2147483647 then n else dflt)"

subsection \<open>\<^verbatim>\<open>Number(string)\<close>\<close>

text \<open>
  The conversion of a string to a number, for strings of 8-bit characters read as code
  points: surrounding white space is dropped (the no-break space \<open>U+00A0\<close> included);
  the empty string is 0; then a hexadecimal, octal or binary literal without sign, or a
  decimal literal with an optional sign (\<^verbatim>\<open>Infinity\<close>, digits with an optional
  fraction and an optional exponent); anything else is \<open>NaN\<close>. The mathematical value
  of a literal is rounded to a double.
\<close>

definition is_ws :: "char \<Rightarrow> bool" where
  "is_ws c = (of_char c \<in> {9, 10, 11, 12, 13, 32, 160 :: nat})"

definition trim :: "string \<Rightarrow> string" where
  "trim s = rev (dropWhile is_ws (rev (dropWhile is_ws s)))"

definition digit_of :: "char \<Rightarrow> nat option" where
  "digit_of c =
     (let n = (of_char c :: nat) in
      if 48 \<le> n \<and> n \<le> 57 then Some (n - 48)
      else if 97 \<le> n \<and> n \<le> 102 then Some (n - 87)
      else if 65 \<le> n \<and> n \<le> 70 then Some (n - 55)
      else None)"

definition is_digit :: "nat \<Rightarrow> char \<Rightarrow> bool" where
  "is_digit base c = (case digit_of c of None \<Rightarrow> False | Some d \<Rightarrow> d < base)"

text \<open>The value of a string of digits in a base.\<close>

fun digits_value :: "nat \<Rightarrow> nat \<Rightarrow> string \<Rightarrow> nat" where
  "digits_value base acc [] = acc"
| "digits_value base acc (c # cs) =
     digits_value base (base * acc + (case digit_of c of None \<Rightarrow> 0 | Some d \<Rightarrow> d)) cs"

definition all_digits :: "nat \<Rightarrow> string \<Rightarrow> bool" where
  "all_digits base s = (s \<noteq> [] \<and> list_all (is_digit base) s)"

definition exponent_part :: "string \<Rightarrow> int option" where
  "exponent_part s =
     (case s of
        [] \<Rightarrow> Some 0
      | c # r \<Rightarrow>
          if c = CHR ''e'' \<or> c = CHR ''E'' then
            (case r of
               [] \<Rightarrow> None
             | d # ds \<Rightarrow>
                 if d = CHR ''+'' then
                   (if all_digits 10 ds then Some (int (digits_value 10 0 ds)) else None)
                 else if d = CHR ''-'' then
                   (if all_digits 10 ds then Some (- int (digits_value 10 0 ds)) else None)
                 else (if all_digits 10 r then Some (int (digits_value 10 0 r)) else None))
          else None)"

definition unsigned_decimal :: "string \<Rightarrow> jsnum" where
  "unsigned_decimal s =
     (if s = ''Infinity'' then PosInf
      else
        let ip = takeWhile (is_digit 10) s;
            r1 = dropWhile (is_digit 10) s;
            dot = (r1 \<noteq> [] \<and> hd r1 = CHR ''.'');
            fp = (if dot then takeWhile (is_digit 10) (tl r1) else []);
            r2 = (if dot then dropWhile (is_digit 10) (tl r1) else r1)
        in if ip = [] \<and> fp = [] then NaN
           else (case exponent_part r2 of
                   None \<Rightarrow> NaN
                 | Some e \<Rightarrow>
                     double_of False
                       ((of_nat (digits_value 10 0 ip)
                          + of_nat (digits_value 10 0 fp) / 10 ^ length fp)
                        * (if 0 \<le> e then 10 ^ nat e else 1 / 10 ^ nat (- e)))))"

definition jsNumber :: "string \<Rightarrow> jsnum" where
  "jsNumber str =
     (let s = trim str in
      if s = [] then Fin 0
      else if take 2 s \<in> {''0x'', ''0X''} then
        (if all_digits 16 (drop 2 s) then double_of False (of_nat (digits_value 16 0 (drop 2 s)))
         else NaN)
      else if take 2 s \<in> {''0o'', ''0O''} then
        (if all_digits 8 (drop 2 s) then double_of False (of_nat (digits_value 8 0 (drop 2 s)))
         else NaN)
      else if take 2 s \<in> {''0b'', ''0B''} then
        (if all_digits 2 (drop 2 s) then double_of False (of_nat (digits_value 2 0 (drop 2 s)))
         else NaN)
      else if hd s = CHR ''+'' then unsigned_decimal (tl s)
      else if hd s = CHR ''-'' then js_neg (unsigned_decimal (tl s))
      else unsigned_decimal s)"

text \<open>\<^verbatim>\<open>str.split(sep)\<close> for a separator of one character.\<close>

fun split :: "char \<Rightarrow> string \<Rightarrow> string list" where
  "split sep [] = [[]]"
| "split sep (c # cs) =
     (if c = sep then [] # split sep cs
      else (case split sep cs of [] \<Rightarrow> [[c]] | p # ps \<Rightarrow> (c # p) # ps))"

section \<open>Canvas geometry utilities\<close>

text \<open>
  Sources: \<^verbatim>\<open>src/lib/utils.ts\<close> (\<^verbatim>\<open>resizeImageToAspectRatio\<close>,
  \<^verbatim>\<open>cropImageToAspectRatio\<close>) and \<^verbatim>\<open>src/unnamed/part_008\<close>
  (\<^verbatim>\<open>createPrintSheet\<close>). The browser is a parameter: whether and with which
  dimensions an image loads, whether a 2D context is available, and the encoder behind
  \<^verbatim>\<open>canvas.toDataURL('image/jpeg', 0.95)\<close>. A canvas is its two dimensions and the
  list of drawing calls made on its context, latest last; a rejected promise or a
  thrown \<^verbatim>\<open>Error\<close> is \<open>Inl\<close> of its message.
\<close>

type_synonym rect = "jsnum \<times> jsnum \<times> jsnum \<times> jsnum"

datatype drawop =
    FillRect string rect
  | DrawImage "rect option" rect

record canvas =
  width :: nat
  height :: nat
  ops :: "drawop list"

record browser =
  decode :: "string \<Rightarrow> (nat \<times> nat) option"
  getContext :: bool
  toDataURL :: "canvas \<Rightarrow> string"

text \<open>The number read from \<^verbatim>\<open>img.width\<close> or \<^verbatim>\<open>img.height\<close>, or held by a loop
  counter: a non-negative integer. Those attributes are below \<open>2^32\<close> and a counter
  never passes \<open>2^53\<close>, so the integer is a double.\<close>

definition js_of_nat :: "nat \<Rightarrow> jsnum" where
  "js_of_nat n = Fin (of_nat n)"

subsection \<open>\<^verbatim>\<open>resizeImageToAspectRatio\<close>\<close>

text \<open>Lines 48 to 57: the canvas grows along the deficient axis.\<close>

definition paddedSize :: "jsnum \<Rightarrow> jsnum \<Rightarrow> jsnum \<Rightarrow> jsnum \<times> jsnum" where
  "paddedSize origWidth origHeight targetRatio =
     (let origRatio = js_div origWidth origHeight in
      if js_gt targetRatio origRatio
      then (js_mul origHeight targetRatio, origHeight)
      else (origWidth, js_div origWidth targetRatio))"

definition MAX_DIMENSION :: jsnum where
  "MAX_DIMENSION = Fin 1024"

text \<open>Lines 60 to 67.\<close>

definition scaleFor :: "jsnum \<Rightarrow> jsnum \<Rightarrow> jsnum" where
  "scaleFor canvasWidth canvasHeight =
     (if js_gt canvasWidth MAX_DIMENSION \<or> js_gt canvasHeight MAX_DIMENSION
      then (if js_gt canvasWidth canvasHeight
            then js_div MAX_DIMENSION canvasWidth
            else js_div MAX_DIMENSION canvasHeight)
      else Fin 1)"

text \<open>Lines 69 to 84: the canvas that is encoded.\<close>

definition paddedCanvas :: "jsnum \<Rightarrow> jsnum \<Rightarrow> jsnum \<Rightarrow> canvas" where
  "paddedCanvas origWidth origHeight targetRatio =
     (let (canvasWidth, canvasHeight) = paddedSize origWidth origHeight targetRatio;
          scale = scaleFor canvasWidth canvasHeight;
          finalCanvasWidth = js_round (js_mul canvasWidth scale);
          finalCanvasHeight = js_round (js_mul canvasHeight scale);
          finalImgWidth = js_round (js_mul origWidth scale);
          finalImgHeight = js_round (js_mul origHeight scale);
          drawX = js_div (js_sub finalCanvasWidth finalImgWidth) (Fin 2);
          drawY = js_div (js_sub finalCanvasHeight finalImgHeight) (Fin 2)
      in \<lparr>width = canvas_dimension 300 finalCanvasWidth,
          height = canvas_dimension 150 finalCanvasHeight,
          ops = [FillRect ''#000000'' (Fin 0, Fin 0, finalCanvasWidth, finalCanvasHeight),
                 DrawImage (Some (Fin 0, Fin 0, origWidth, origHeight))
                   (drawX, drawY, finalImgWidth, finalImgHeight)]\<rparr>)"

text \<open>Line 43: \<^verbatim>\<open>Math.abs(targetRatio - origRatio) < 0.01\<close>\<close>

definition withinTolerance :: "jsnum \<Rightarrow> jsnum \<Rightarrow> bool" where
  "withinTolerance targetRatio origRatio =
     js_lt (js_abs (js_sub targetRatio origRatio)) (double_of False (1 / 100))"

text \<open>Lines 24 to 28: \<^verbatim>\<open>const [wRatio, hRatio] = aspectRatio.split(':').map(Number)\<close>
  and the validation. \<open>None\<close> is the rejection. With fewer than two components
  \<^verbatim>\<open>hRatio\<close> is \<^verbatim>\<open>undefined\<close>, for which \<^verbatim>\<open>isNaN\<close> is true.\<close>

definition parseAspectRatio :: "string \<Rightarrow> (jsnum \<times> jsnum) option" where
  "parseAspectRatio aspectRatio =
     (case map jsNumber (split CHR '':'' aspectRatio) of
        wRatio # hRatio # _ \<Rightarrow>
          if isNaN wRatio \<or> isNaN hRatio \<or> js_strict_eq hRatio (Fin 0) then None
          else Some (wRatio, hRatio)
      | _ \<Rightarrow> None)"

definition resizeImageToAspectRatio :: "browser \<Rightarrow> string \<Rightarrow> string \<Rightarrow> string + string" where
  "resizeImageToAspectRatio env dataUrl aspectRatio =
     (case parseAspectRatio aspectRatio of
        None \<Rightarrow> Inl ''Invalid aspect ratio format''
      | Some (wRatio, hRatio) \<Rightarrow>
          let targetRatio = js_div wRatio hRatio in
          (case decode env dataUrl of
             None \<Rightarrow> Inl ''Failed to load image for resizing.''
           | Some (imgWidth, imgHeight) \<Rightarrow>
               if \<not> getContext env then Inl ''Could not get canvas context''
               else
                 let origWidth = js_of_nat imgWidth;
                     origHeight = js_of_nat imgHeight;
                     origRatio = js_div origWidth origHeight
                 in if withinTolerance targetRatio origRatio then Inr dataUrl
                    else Inr (toDataURL env (paddedCanvas origWidth origHeight targetRatio))))"

subsection \<open>\<^verbatim>\<open>cropImageToAspectRatio\<close>\<close>

text \<open>Lines 113 to 149. The source rectangle of the \<^verbatim>\<open>drawImage\<close> call is
  \<open>(cropX, cropY, cropWidth, cropHeight)\<close>, its destination
  \<open>(0, 0, cropWidth, cropHeight)\<close>; the canvas dimensions are \<open>cropWidth\<close> and
  \<open>cropHeight\<close> converted to integers.\<close>

definition cropRect :: "jsnum \<Rightarrow> jsnum \<Rightarrow> jsnum \<Rightarrow> rect" where
  "cropRect origWidth origHeight targetAspectRatio =
     (let origRatio = js_div origWidth origHeight in
      if js_gt origRatio targetAspectRatio
      then (let cropHeight = origHeight;
                cropWidth = js_mul origHeight targetAspectRatio;
                cropX = js_div (js_sub origWidth cropWidth) (Fin 2);
                cropY = Fin 0
            in (cropX, cropY, cropWidth, cropHeight))
      else (let cropWidth = origWidth;
                cropHeight = js_div origWidth targetAspectRatio;
                cropX = Fin 0;
                cropY = js_div (js_sub origHeight cropHeight) (Fin 2)
            in (cropX, cropY, cropWidth, cropHeight)))"

definition croppedCanvas :: "jsnum \<Rightarrow> jsnum \<Rightarrow> jsnum \<Rightarrow> canvas" where
  "croppedCanvas origWidth origHeight targetAspectRatio =
     (let (cropX, cropY, cropWidth, cropHeight) = cropRect origWidth origHeight targetAspectRatio
      in \<lparr>width = canvas_dimension 300 cropWidth,
          height = canvas_dimension 150 cropHeight,
          ops = [DrawImage (Some (cropX, cropY, cropWidth, cropHeight))
                   (Fin 0, Fin 0, cropWidth, cropHeight)]\<rparr>)"

definition cropImageToAspectRatio :: "browser \<Rightarrow> string \<Rightarrow> jsnum \<Rightarrow> string + string" where
  "cropImageToAspectRatio env dataUrl targetAspectRatio =
     (case decode env dataUrl of
        None \<Rightarrow> Inl ''Failed to load image for cropping.''
      | Some (imgWidth, imgHeight) \<Rightarrow>
          if \<not> getContext env then Inl ''Could not get canvas context''
          else Inr (toDataURL env
                 (croppedCanvas (js_of_nat imgWidth) (js_of_nat imgHeight) targetAspectRatio)))"

subsection \<open>\<^verbatim>\<open>createPrintSheet\<close>\<close>

definition DPI :: jsnum where
  "DPI = Fin 300"

definition PAPER_WIDTH_INCHES :: jsnum where
  "PAPER_WIDTH_INCHES = Fin 4"

definition PAPER_HEIGHT_INCHES :: jsnum where
  "PAPER_HEIGHT_INCHES = Fin 6"

text \<open>\<^verbatim>\<open>1 / 2.54\<close>\<close>

definition CM_TO_INCH :: jsnum where
  "CM_TO_INCH = js_div (Fin 1) (double_of False (254 / 100))"

definition paperWidthPx :: jsnum where
  "paperWidthPx = js_mul PAPER_WIDTH_INCHES DPI"

definition paperHeightPx :: jsnum where
  "paperHeightPx = js_mul PAPER_HEIGHT_INCHES DPI"

text \<open>\<^verbatim>\<open>targetPortraitWidthCm * CM_TO_INCH * DPI\<close>\<close>

definition portraitPx :: "jsnum \<Rightarrow> jsnum" where
  "portraitPx targetPortraitCm = js_mul (js_mul targetPortraitCm CM_TO_INCH) DPI"

text \<open>\<^verbatim>\<open>0.1 * CM_TO_INCH * DPI\<close>\<close>

definition padding :: jsnum where
  "padding = js_mul (js_mul (double_of False (1 / 10)) CM_TO_INCH) DPI"

text \<open>\<^verbatim>\<open>Math.floor((paperPx - padding) / (portraitPx + padding))\<close>: the number of
  columns, or of rows.\<close>

definition gridCount :: "jsnum \<Rightarrow> jsnum \<Rightarrow> jsnum" where
  "gridCount paperPx portraitSizePx =
     js_floor (js_div (js_sub paperPx padding) (js_add portraitSizePx padding))"

text \<open>\<^verbatim>\<open>cols * portraitWidthPx + (cols - 1) * padding\<close>\<close>

definition totalGrid :: "jsnum \<Rightarrow> jsnum \<Rightarrow> jsnum" where
  "totalGrid n portraitSizePx =
     js_add (js_mul n portraitSizePx) (js_mul (js_sub n (Fin 1)) padding)"

text \<open>\<^verbatim>\<open>(paperPx - totalGrid) / 2\<close>\<close>

definition gridStart :: "jsnum \<Rightarrow> jsnum \<Rightarrow> jsnum" where
  "gridStart paperPx totalGridPx = js_div (js_sub paperPx totalGridPx) (Fin 2)"

text \<open>The number of rounds of \<^verbatim>\<open>for (let i = 0; i < n; i++)\<close>; \<open>None\<close> when the loop
  never ends: the counter stops growing at \<open>2^53\<close>, where \<^verbatim>\<open>i++\<close> rounds back to
  \<open>2^53\<close>.\<close>

definition loopCount :: "jsnum \<Rightarrow> nat option" where
  "loopCount n =
     (case n of
        PosInf \<Rightarrow> None
      | Fin r \<Rightarrow> if 2 ^ 53 < r then None else Some (nat \<lceil>r\<rceil>)
      | _ \<Rightarrow> Some 0)"

text \<open>One round of the inner loop: the call that draws the cell of a row and a column.\<close>

definition drawCell :: "jsnum \<Rightarrow> jsnum \<Rightarrow> jsnum \<Rightarrow> jsnum \<Rightarrow> nat \<Rightarrow> nat \<Rightarrow> drawop" where
  "drawCell startX startY portraitWidthPx portraitHeightPx row col =
     (let x = js_add startX (js_mul (js_of_nat col) (js_add portraitWidthPx padding));
          y = js_add startY (js_mul (js_of_nat row) (js_add portraitHeightPx padding))
      in DrawImage None (x, y, portraitWidthPx, portraitHeightPx))"

text \<open>The two nested loops, for finite bounds: rows outside, columns inside.\<close>

definition drawCells :: "jsnum \<Rightarrow> jsnum \<Rightarrow> jsnum \<Rightarrow> jsnum \<Rightarrow> nat \<Rightarrow> nat \<Rightarrow> drawop list" where
  "drawCells startX startY portraitWidthPx portraitHeightPx nrows ncols =
     concat (map (\<lambda>row. map (drawCell startX startY portraitWidthPx portraitHeightPx row)
                          [0..<ncols]) [0..<nrows])"

text \<open>The result is \<open>None\<close> when a loop never ends; otherwise what the promise settles
  with, and the canvas as it is at that moment.\<close>

definition createPrintSheet ::
  "browser \<Rightarrow> string \<Rightarrow> jsnum \<Rightarrow> jsnum \<Rightarrow> ((string + string) \<times> canvas) option" where
  "createPrintSheet env portraitDataUrl targetPortraitWidthCm targetPortraitHeightCm =
     (let portraitWidthPx = portraitPx targetPortraitWidthCm;
          portraitHeightPx = portraitPx targetPortraitHeightCm;
          blank = \<lparr>width = canvas_dimension 300 paperWidthPx,
                   height = canvas_dimension 150 paperHeightPx, ops = []\<rparr>
      in if \<not> getContext env
         then Some (Inl ''Could not get 2D canvas context for print sheet'', blank)
         else
           let filled = blank\<lparr>ops := [FillRect ''#FFFFFF'' (Fin 0, Fin 0, paperWidthPx, paperHeightPx)]\<rparr>
           in (case decode env portraitDataUrl of
                 None \<Rightarrow>
                   Some (Inl (''Failed to load image for print sheet: ''
                              @ take 50 portraitDataUrl @ ''...''), filled)
               | Some portraitImage \<Rightarrow>
                   let cols = gridCount paperWidthPx portraitWidthPx;
                       rows = gridCount paperHeightPx portraitHeightPx
                   in if js_strict_eq cols (Fin 0) \<or> js_strict_eq rows (Fin 0)
                      then Some (Inl ''Portrait size is too large to fit on a 4x6 inch paper.'', filled)
                      else
                        let totalGridWidth = totalGrid cols portraitWidthPx;
                            totalGridHeight = totalGrid rows portraitHeightPx;
                            startX = gridStart paperWidthPx totalGridWidth;
                            startY = gridStart paperHeightPx totalGridHeight
                        in (case loopCount rows of
                              None \<Rightarrow> None
                            | Some nrows \<Rightarrow>
                                (case loopCount cols of
                                   None \<Rightarrow> (if nrows = 0 then
                                       Some (Inr (toDataURL env filled), filled) else None)
                                 | Some ncols \<Rightarrow>
                                     let sheet = filled\<lparr>ops := ops filled
                                           @ drawCells startX startY portraitWidthPx
                                               portraitHeightPx nrows ncols\<rparr>
                                     in Some (Inr (toDataURL env sheet), sheet)))))"

text \<open>A browser for concrete runs: every data URL decodes to an image of 600 by 800
  pixels, and the encoder only reports the number of drawing calls.\<close>

definition testBrowser :: browser where
  "testBrowser =
     \<lparr>decode = (\<lambda>src. Some (600, 800)),
      getContext = True,
      toDataURL = (\<lambda>c. ''data:image/jpeg;base64,'' @ replicate (length (ops c)) CHR ''A'')\<rparr>"

section \<open>The batch runner of the product scene generator\<close>

text \<open>
  Source: \<^verbatim>\<open>src/unnamed/part_003\<close>, \<^verbatim>\<open>handleGenerateSingle\<close> and
  \<^verbatim>\<open>handleGenerateAll\<close>. The jobs are the ids of the selected angles. The model has
  the shape of the one above; its names carry the prefix \<open>ps\<close>.
\<close>

text \<open>An entry of \<^verbatim>\<open>ANGLE_OPTIONS\<close>.\<close>

record angle =
  angle_id :: string
  labelKey :: string
  angle_prompt :: string

text \<open>A worker of \<^verbatim>\<open>handleGenerateAll\<close>. While it awaits \<^verbatim>\<open>handleGenerateSingle\<close> the flag
  tells whether that call passed its two guards and sent a request.\<close>

datatype psWorker = PsAtLoopHead | PsAwaiting string bool | PsExited

record psRunner =
  ps_generatedImages :: images
  ps_queue :: "string list"
  ps_workers :: "psWorker list"
  ps_inFlight :: "string list"

text \<open>\<^verbatim>\<open>handleGenerateSingle\<close> up to its \<^verbatim>\<open>await\<close>: \<open>None\<close> is one of the two early
  returns, which leave the map as it is.\<close>

definition handleGenerateSingle ::
  "angle list \<Rightarrow> string option \<Rightarrow> string \<Rightarrow> images \<Rightarrow> images option" where
  "handleGenerateSingle ANGLE_OPTIONS uploadedImage angleId prev =
     (if falsy uploadedImage then None
      else (case find (\<lambda>a. angle_id a = angleId) ANGLE_OPTIONS of
              None \<Rightarrow> None
            | Some angle \<Rightarrow> Some (prev(angleId \<mapsto> pendingImage))))"

text \<open>The \<^verbatim>\<open>try\<close> or the \<^verbatim>\<open>catch\<close> branch of \<^verbatim>\<open>handleGenerateSingle\<close>.\<close>

definition handleGenerateSingle_settled :: "string \<Rightarrow> outcome \<Rightarrow> images \<Rightarrow> images" where
  "handleGenerateSingle_settled angleId out prev = prev(angleId \<mapsto> settledImage out)"

text \<open>\<^verbatim>\<open>while (queue.length > 0) { const angleId = queue.shift(); if (angleId) ... }\<close>:
  the queue holds strings, and the empty string is falsy, so the loop passes over it.
  The result is the first item taken and the queue that is left.\<close>

fun ps_shift :: "string list \<Rightarrow> string option \<times> string list" where
  "ps_shift [] = (None, [])"
| "ps_shift (angleId # rest) = (if angleId \<noteq> [] then (Some angleId, rest) else ps_shift rest)"

text \<open>Worker \<open>i\<close> runs from the loop head to its next suspension.\<close>

definition ps_resume :: "angle list \<Rightarrow> string option \<Rightarrow> nat \<Rightarrow> psRunner \<Rightarrow> psRunner" where
  "ps_resume ANGLE_OPTIONS uploadedImage i s =
     (case ps_shift (ps_queue s) of
        (None, rest) \<Rightarrow> s\<lparr>ps_queue := rest, ps_workers := (ps_workers s)[i := PsExited]\<rparr>
      | (Some angleId, rest) \<Rightarrow>
          (case handleGenerateSingle ANGLE_OPTIONS uploadedImage angleId (ps_generatedImages s) of
             None \<Rightarrow>
               s\<lparr>ps_queue := rest, ps_workers := (ps_workers s)[i := PsAwaiting angleId False]\<rparr>
           | Some started \<Rightarrow>
               s\<lparr>ps_generatedImages := started,
                 ps_queue := rest,
                 ps_workers := (ps_workers s)[i := PsAwaiting angleId True],
                 ps_inFlight := angleId # ps_inFlight s\<rparr>))"

text \<open>The call awaited by worker \<open>i\<close> settles.\<close>

definition ps_settle :: "(string \<Rightarrow> outcome) \<Rightarrow> nat \<Rightarrow> string \<Rightarrow> bool \<Rightarrow> psRunner \<Rightarrow> psRunner" where
  "ps_settle work i angleId requested s =
     (if requested
      then s\<lparr>ps_generatedImages :=
               handleGenerateSingle_settled angleId (work angleId) (ps_generatedImages s),
             ps_workers := (ps_workers s)[i := PsAtLoopHead],
             ps_inFlight := remove1 angleId (ps_inFlight s)\<rparr>
      else s\<lparr>ps_workers := (ps_workers s)[i := PsAtLoopHead]\<rparr>)"

definition ps_step ::
  "angle list \<Rightarrow> string option \<Rightarrow> (string \<Rightarrow> outcome) \<Rightarrow> event \<Rightarrow> psRunner \<Rightarrow> psRunner option" where
  "ps_step ANGLE_OPTIONS uploadedImage work ev s =
     (case ev of
        Resume i \<Rightarrow>
          (if i < length (ps_workers s) \<and> ps_workers s ! i = PsAtLoopHead
           then Some (ps_resume ANGLE_OPTIONS uploadedImage i s) else None)
      | Settle i \<Rightarrow>
          (if i < length (ps_workers s)
           then (case ps_workers s ! i of
                   PsAwaiting angleId requested \<Rightarrow> Some (ps_settle work i angleId requested s)
                 | _ \<Rightarrow> None)
           else None))"

fun ps_run ::
  "angle list \<Rightarrow> string option \<Rightarrow> (string \<Rightarrow> outcome) \<Rightarrow> event list \<Rightarrow> psRunner \<Rightarrow> psRunner option" where
  "ps_run ANGLE_OPTIONS uploadedImage work [] s = Some s"
| "ps_run ANGLE_OPTIONS uploadedImage work (ev # evs) s =
     (case ps_step ANGLE_OPTIONS uploadedImage work ev s of
        None \<Rightarrow> None
      | Some s' \<Rightarrow> ps_run ANGLE_OPTIONS uploadedImage work evs s')"

text \<open>\<^verbatim>\<open>selectedAngles.forEach(id => { initialStates[id] = { status: 'pending' }; })\<close>\<close>

fun initialStates :: "string list \<Rightarrow> images \<Rightarrow> images" where
  "initialStates [] m = m"
| "initialStates (angleId # ids) m = initialStates ids (m(angleId \<mapsto> pendingImage))"

fun ps_spawn :: "angle list \<Rightarrow> string option \<Rightarrow> nat list \<Rightarrow> psRunner \<Rightarrow> psRunner" where
  "ps_spawn ANGLE_OPTIONS uploadedImage [] s = s"
| "ps_spawn ANGLE_OPTIONS uploadedImage (i # is) s =
     ps_spawn ANGLE_OPTIONS uploadedImage is (ps_resume ANGLE_OPTIONS uploadedImage i s)"

text \<open>\<^verbatim>\<open>handleGenerateAll\<close> up to \<^verbatim>\<open>await Promise.all(workers)\<close>. The source fixes
  \<^verbatim>\<open>concurrencyLimit = 3\<close>.\<close>

definition handleGenerateAll ::
  "nat \<Rightarrow> angle list \<Rightarrow> string option \<Rightarrow> string list \<Rightarrow> psRunner option" where
  "handleGenerateAll concurrencyLimit ANGLE_OPTIONS uploadedImage selectedAngles =
     (if falsy uploadedImage \<or> length selectedAngles = 0 then None
      else Some (ps_spawn ANGLE_OPTIONS uploadedImage [0..<concurrencyLimit]
        \<lparr>ps_generatedImages = initialStates selectedAngles Map.empty,
         ps_queue = selectedAngles,
         ps_workers = replicate concurrencyLimit PsAtLoopHead,
         ps_inFlight = []\<rparr>))"

definition ps_completed :: "psRunner \<Rightarrow> bool" where
  "ps_completed s = list_all (\<lambda>w. w = PsExited) (ps_workers s)"

text \<open>The invariant of this runner.\<close>

definition ps_awaited :: "psWorker list \<Rightarrow> string list" where
  "ps_awaited ws = concat (map (\<lambda>w. case w of PsAwaiting a r \<Rightarrow> [a] | _ \<Rightarrow> []) ws)"

definition ps_unsettled :: "psRunner \<Rightarrow> string multiset" where
  "ps_unsettled s = mset (ps_queue s) + mset (ps_awaited (ps_workers s))"

definition ps_inv :: "string list \<Rightarrow> (string \<Rightarrow> outcome) \<Rightarrow> nat \<Rightarrow> psRunner \<Rightarrow> bool" where
  "ps_inv jobs work c s \<longleftrightarrow>
     ps_unsettled s \<subseteq># mset jobs \<and>
     (\<forall>a\<in>set jobs. ps_generatedImages s a =
        Some (if a \<in># ps_unsettled s then pendingImage else settledImage (work a))) \<and>
     (PsExited \<in> set (ps_workers s) \<longrightarrow> ps_queue s = []) \<and>
     (\<forall>w\<in>set (ps_workers s). \<forall>a. w \<noteq> PsAwaiting a False) \<and>
     length (ps_workers s) = c \<and>
     mset (ps_inFlight s) = mset (ps_awaited (ps_workers s))"
section \<open>Properties of the batch runner\<close>

lemma awaited_Nil [simp]: "awaited [] = []"
  by (simp add: awaited_def)

lemma awaited_Cons: "awaited (w # ws) = (case w of Awaiting st \<Rightarrow> [st] | _ \<Rightarrow> []) @ awaited ws"
  by (simp add: awaited_def)

lemma awaited_update:
  "i < length ws \<Longrightarrow>
   mset (awaited (ws[i := w])) + mset (awaited [ws ! i]) = mset (awaited ws) + mset (awaited [w])"
proof (induction ws arbitrary: i)
  case Nil
  then show ?case by simp
next
  case (Cons a ws)
  show ?case
  proof (cases i)
    case 0
    then show ?thesis by (simp add: awaited_Cons)
  next
    case (Suc j)
    with Cons.prems have "j < length ws" by simp
    from Cons.IH [OF this] show ?thesis using Suc
      by (simp add: awaited_Cons)
  qed
qed

lemma length_awaited: "length (awaited ws) \<le> length ws"
  by (induction ws) (auto simp: awaited_Cons split: worker.splits)

lemma awaited_all_Exited: "list_all (\<lambda>w. w = Exited) ws \<Longrightarrow> awaited ws = []"
  by (induction ws) (auto simp: awaited_Cons)

lemma unsettled_resume:
  assumes "i < length (workers s)" "workers s ! i = AtLoopHead"
  shows "unsettled (resume i s) = unsettled s"
proof (cases "stylesQueue s")
  case Nil
  with awaited_update [OF assms(1), of Exited] assms(2) show ?thesis
    by (simp add: unsettled_def resume_def awaited_Cons)
next
  case (Cons st rest)
  with awaited_update [OF assms(1), of "Awaiting st"] assms(2) show ?thesis
    by (simp add: unsettled_def resume_def awaited_Cons)
qed

lemma unsettled_settle:
  assumes "i < length (workers s)" "workers s ! i = Awaiting st"
  shows "unsettled (settle work i st s) + {#st#} = unsettled s"
  using awaited_update [OF assms(1), of AtLoopHead] assms(2)
  by (simp add: unsettled_def settle_def awaited_Cons)

lemma resume_inv:
  assumes "batch_inv jobs work s" "i < length (workers s)" "workers s ! i = AtLoopHead"
  shows "batch_inv jobs work (resume i s)"
proof -
  have u: "unsettled (resume i s) = unsettled s" by (rule unsettled_resume [OF assms(2,3)])
  have g: "generatedImages (resume i s) = generatedImages s"
    by (simp add: resume_def split: list.splits)
  have e: "Exited \<in> set (workers (resume i s)) \<longrightarrow> stylesQueue (resume i s) = []"
  proof (cases "stylesQueue s")
    case Nil
    then show ?thesis by (simp add: resume_def)
  next
    case (Cons st rest)
    have "set ((workers s)[i := Awaiting st]) \<subseteq> insert (Awaiting st) (set (workers s))"
      by (rule set_update_subset_insert)
    with Cons assms(1) show ?thesis
      by (auto simp: resume_def batch_inv_def)
  qed
  from assms(1) u g e show ?thesis by (simp add: batch_inv_def)
qed

lemma settle_inv:
  assumes inv: "batch_inv jobs work s" and d: "distinct (map style_id jobs)"
    and i: "i < length (workers s)" and w: "workers s ! i = Awaiting st"
  shows "batch_inv jobs work (settle work i st s)"
proof -
  let ?s' = "settle work i st s"
  have u: "unsettled ?s' + {#st#} = unsettled s" by (rule unsettled_settle [OF i w])
  from inv have sub: "unsettled s \<subseteq># mset jobs" by (simp add: batch_inv_def)
  from d have dj: "distinct jobs" by (simp add: distinct_map)
  have stU: "st \<in># unsettled s" by (subst u [symmetric]) simp
  with sub have stJ: "st \<in> set jobs" by (metis mset_subset_eqD set_mset_mset)
  have "count (mset jobs) st \<le> 1" using dj by (simp add: distinct_count_atmost_1)
  moreover have "count (unsettled s) st \<le> count (mset jobs) st"
    using sub by (rule mset_subset_eq_count)
  ultimately have c1: "count (unsettled s) st \<le> 1" by linarith
  have "count (unsettled ?s' + {#st#}) st \<le> 1" using c1 by (simp only: u)
  then have notin: "st \<notin># unsettled ?s'" by (simp add: not_in_iff)
  have other: "st' \<in># unsettled ?s' \<longleftrightarrow> st' \<in># unsettled s" if "st' \<noteq> st" for st'
    by (subst u [symmetric]) (use that in simp)
  have "unsettled ?s' \<subseteq># unsettled ?s' + {#st#}" by simp
  then have "unsettled ?s' \<subseteq># unsettled s" by (simp only: u)
  then have sub': "unsettled ?s' \<subseteq># mset jobs"
    using sub by (rule subset_mset.order_trans)
  have img: "generatedImages ?s' (style_id st') =
        Some (if st' \<in># unsettled ?s' then pendingImage else settledImage (work st'))"
    if "st' \<in> set jobs" for st'
  proof (cases "st' = st")
    case True
    with notin show ?thesis by (simp add: settle_def processStyle_def)
  next
    case False
    with d that stJ have "style_id st' \<noteq> style_id st"
      by (meson distinct_map inj_on_def)
    with inv that other [OF False] show ?thesis
      by (simp add: settle_def processStyle_def batch_inv_def)
  qed
  have "set ((workers s)[i := AtLoopHead]) \<subseteq> insert AtLoopHead (set (workers s))"
    by (rule set_update_subset_insert)
  with inv have e: "Exited \<in> set (workers ?s') \<longrightarrow> stylesQueue ?s' = []"
    by (auto simp: settle_def batch_inv_def)
  from inv stJ have "dom (generatedImages ?s') = style_id ` set jobs"
    by (auto simp: settle_def processStyle_def batch_inv_def)
  with sub' img e show ?thesis by (simp add: batch_inv_def)
qed

lemma step_inv:
  assumes "batch_inv jobs work s" "distinct (map style_id jobs)" "step work ev s = Some s'"
  shows "batch_inv jobs work s'"
proof (cases ev)
  case (Resume i)
  with assms(3) have "i < length (workers s)" "workers s ! i = AtLoopHead" "s' = resume i s"
    by (auto simp: step_def split: if_splits)
  with assms(1) show ?thesis by (simp add: resume_inv)
next
  case (Settle i)
  with assms(3) obtain st where "i < length (workers s)" "workers s ! i = Awaiting st"
      "s' = settle work i st s"
    by (auto simp: step_def split: if_splits worker.splits)
  with assms(1,2) show ?thesis by (simp add: settle_inv)
qed

lemma run_inv:
  "batch_inv jobs work s \<Longrightarrow> distinct (map style_id jobs) \<Longrightarrow> run work evs s = Some s'
   \<Longrightarrow> batch_inv jobs work s'"
proof (induction evs arbitrary: s)
  case Nil
  then show ?case by simp
next
  case (Cons ev evs)
  from Cons.prems(3) obtain s1 where s1: "step work ev s = Some s1" "run work evs s1 = Some s'"
    by (auto split: option.splits)
  from Cons.prems(1,2) s1(1) have "batch_inv jobs work s1" by (rule step_inv)
  from Cons.IH [OF this Cons.prems(2) s1(2)] show ?case .
qed

lemma resume_flight:
  assumes "flight_inv c s" "i < length (workers s)" "workers s ! i = AtLoopHead"
  shows "flight_inv c (resume i s)"
proof (cases "stylesQueue s")
  case Nil
  with awaited_update [OF assms(2), of Exited] assms(1,3) show ?thesis
    by (simp add: flight_inv_def resume_def awaited_Cons)
next
  case (Cons st rest)
  with awaited_update [OF assms(2), of "Awaiting st"] assms(1,3) show ?thesis
    by (simp add: flight_inv_def resume_def awaited_Cons)
qed

lemma settle_flight:
  assumes "flight_inv c s" "i < length (workers s)" "workers s ! i = Awaiting st"
  shows "flight_inv c (settle work i st s)"
proof -
  from awaited_update [OF assms(2), of AtLoopHead] assms(3)
  have "mset (awaited ((workers s)[i := AtLoopHead])) + {#st#} = mset (awaited (workers s))"
    by (simp add: awaited_Cons)
  then have "mset (awaited ((workers s)[i := AtLoopHead])) = mset (awaited (workers s)) - {#st#}"
    by (metis add_mset_add_single add_mset_remove_trivial)
  with assms(1) show ?thesis by (simp add: flight_inv_def settle_def)
qed

lemma step_flight:
  assumes "flight_inv c s" "step work ev s = Some s'"
  shows "flight_inv c s'"
proof (cases ev)
  case (Resume i)
  with assms(2) have "i < length (workers s)" "workers s ! i = AtLoopHead" "s' = resume i s"
    by (auto simp: step_def split: if_splits)
  with assms(1) show ?thesis by (simp add: resume_flight)
next
  case (Settle i)
  with assms(2) obtain st where "i < length (workers s)" "workers s ! i = Awaiting st"
      "s' = settle work i st s"
    by (auto simp: step_def split: if_splits worker.splits)
  with assms(1) show ?thesis by (simp add: settle_flight)
qed

lemma run_flight:
  "flight_inv c s \<Longrightarrow> run work evs s = Some s' \<Longrightarrow> flight_inv c s'"
proof (induction evs arbitrary: s)
  case Nil
  then show ?case by simp
next
  case (Cons ev evs)
  from Cons.prems(2) obtain s1 where s1: "step work ev s = Some s1" "run work evs s1 = Some s'"
    by (auto split: option.splits)
  from Cons.prems(1) s1(1) have "flight_inv c s1" by (rule step_flight)
  from Cons.IH [OF this s1(2)] show ?case .
qed

lemma flight_bound: "flight_inv c s \<Longrightarrow> length (inFlight s) \<le> c"
proof -
  assume a: "flight_inv c s"
  then have "size (mset (inFlight s)) = size (mset (awaited (workers s)))"
    by (simp only: flight_inv_def)
  then have "length (inFlight s) = length (awaited (workers s))" by simp
  with length_awaited [of "workers s"] a show ?thesis by (simp add: flight_inv_def)
qed

lemma initialImages_apply:
  "initialImages sts m k = (if k \<in> style_id ` set sts then Some pendingImage else m k)"
  by (induction sts arbitrary: m) auto

lemma awaited_replicate: "awaited (replicate n AtLoopHead) = []"
  by (induction n) (auto simp: awaited_Cons)

lemma resume_others:
  "length (workers (resume i s)) = length (workers s) \<and>
   (\<forall>j. j \<noteq> i \<longrightarrow> workers (resume i s) ! j = workers s ! j)"
  by (simp add: resume_def split: list.splits)

lemma spawn_inv:
  "batch_inv jobs work s \<Longrightarrow> flight_inv c s \<Longrightarrow> \<forall>j. k \<le> j \<and> j < c \<longrightarrow> workers s ! j = AtLoopHead
   \<Longrightarrow> batch_inv jobs work (spawn [k..<c] s) \<and> flight_inv c (spawn [k..<c] s)"
proof (induction "c - k" arbitrary: k s)
  case 0
  then show ?case by simp
next
  case (Suc n)
  then have kc: "k < c" by simp
  from Suc.prems(2) have len: "length (workers s) = c" by (simp add: flight_inv_def)
  from Suc.prems(3) kc have hd: "workers s ! k = AtLoopHead" by simp
  have b: "batch_inv jobs work (resume k s)"
    using Suc.prems(1) kc len hd by (simp add: resume_inv)
  have f: "flight_inv c (resume k s)"
    using Suc.prems(2) kc len hd by (simp add: resume_flight)
  have r: "\<forall>j. Suc k \<le> j \<and> j < c \<longrightarrow> workers (resume k s) ! j = AtLoopHead"
    using Suc.prems(3) resume_others [of k s] by auto
  from Suc.hyps(2) have n: "n = c - Suc k" by simp
  from Suc.hyps(1) [OF n b f r] kc show ?case by (simp add: upt_conv_Cons)
qed

lemma handleGenerateClick_inv:
  assumes "handleGenerateClick c allStyles up sel = Some s0"
  shows "batch_inv (stylesToGenerate allStyles sel) work s0 \<and> flight_inv c s0"
proof -
  let ?jobs = "stylesToGenerate allStyles sel"
  let ?init = "\<lparr>generatedImages = initialImages ?jobs Map.empty, stylesQueue = ?jobs,
      workers = replicate c AtLoopHead, inFlight = []\<rparr>"
  from assms have s0: "s0 = spawn [0..<c] ?init"
    by (simp add: handleGenerateClick_def Let_def split: if_splits)
  have "dom (initialImages ?jobs Map.empty) = style_id ` set ?jobs"
    by (auto simp: initialImages_apply dom_def)
  then have b: "batch_inv ?jobs work ?init"
    by (simp add: batch_inv_def unsettled_def awaited_replicate initialImages_apply)
  have f: "flight_inv c ?init"
    by (simp add: flight_inv_def awaited_replicate)
  have r: "\<forall>j. 0 \<le> j \<and> j < c \<longrightarrow> workers ?init ! j = AtLoopHead" by simp
  from spawn_inv [OF b f r] s0 show ?thesis by simp
qed

lemma completed_settled:
  assumes b: "batch_inv jobs work s" and f: "flight_inv c s" and c: "1 \<le> c"
    and comp: "batchCompleted s" and st: "st \<in> set jobs"
  shows "generatedImages s (style_id st) = Some (settledImage (work st))"
proof -
  from f c have "workers s \<noteq> []" by (auto simp: flight_inv_def)
  with comp have "Exited \<in> set (workers s)"
    by (cases "workers s") (auto simp: batchCompleted_def)
  with b have q: "stylesQueue s = []" by (simp add: batch_inv_def)
  from comp have "awaited (workers s) = []"
    by (simp add: batchCompleted_def awaited_all_Exited)
  with q have "unsettled s = {#}" by (simp add: unsettled_def)
  with b st show ?thesis by (simp add: batch_inv_def)
qed

lemma terminal_settled: "terminal (Some (settledImage out))"
  by (cases out) (simp_all add: terminal_def settledImage_def)

lemma completed_terminal_keys:
  assumes b: "batch_inv jobs work s" and f: "flight_inv c s" and c: "1 \<le> c"
    and comp: "batchCompleted s"
  shows "{k. terminal (generatedImages s k)} = style_id ` set jobs"
proof
  show "{k. terminal (generatedImages s k)} \<subseteq> style_id ` set jobs"
  proof
    fix k assume "k \<in> {k. terminal (generatedImages s k)}"
    then have "generatedImages s k \<noteq> None"
      by (cases "generatedImages s k") (simp_all add: terminal_def)
    then have "k \<in> dom (generatedImages s)" by (simp add: dom_def)
    with b show "k \<in> style_id ` set jobs" by (simp add: batch_inv_def)
  qed
  show "style_id ` set jobs \<subseteq> {k. terminal (generatedImages s k)}"
  proof
    fix k assume "k \<in> style_id ` set jobs"
    then obtain st where st: "st \<in> set jobs" "k = style_id st" by blast
    from completed_settled [OF b f c comp st(1)] st(2)
    show "k \<in> {k. terminal (generatedImages s k)}" by (simp add: terminal_settled)
  qed
qed

lemma demo_jobs: "stylesToGenerate demoStyles demoSelected = demoStyles"
  by (simp add: stylesToGenerate_def demoStyles_def demoSelected_def)

lemma demo_distinct: "distinct (map style_id demoStyles)"
  by (simp add: demoStyles_def)

lemma demo_selected: "length demoSelected = 3"
  by (simp add: demoSelected_def)

lemma demo_start: "handleGenerateClick 2 demoStyles (Some ''data:photo'') demoSelected = Some demoStart"
  by (simp add: demoStart_def handleGenerateClick_def falsy_def demo_selected Let_def)

lemma demo_start_eq:
  "demoStart =
     \<lparr>generatedImages = initialImages demoStyles Map.empty,
      stylesQueue = [\<lparr>style_id = ''walking_pose'', prompt = ''p3''\<rparr>],
      workers = [Awaiting \<lparr>style_id = ''smiling_portrait'', prompt = ''p1''\<rparr>,
                 Awaiting \<lparr>style_id = ''side_profile'', prompt = ''p2''\<rparr>],
      inFlight = [\<lparr>style_id = ''side_profile'', prompt = ''p2''\<rparr>,
                  \<lparr>style_id = ''smiling_portrait'', prompt = ''p1''\<rparr>]\<rparr>"
proof -
  have "[0..<2] = [0, Suc 0]" by (simp add: upt_conv_Cons numeral_2_eq_2)
  then show ?thesis
    by (simp add: demoStart_def handleGenerateClick_def falsy_def demo_jobs Let_def demo_selected
      numeral_2_eq_2 resume_def demoStyles_def [symmetric])
      (simp add: demoStyles_def)
qed

lemma demo_run: "run demoWork demoSchedule demoStart = Some demoFinal \<and> batchCompleted demoFinal"
  by (simp add: demoFinal_def demo_start_eq demoSchedule_def step_def resume_def settle_def
      batchCompleted_def)

lemma jobs_distinct:
  "distinct (map style_id allStyles) \<Longrightarrow> distinct (map style_id (stylesToGenerate allStyles sel))"
  by (simp add: stylesToGenerate_def distinct_map_filter)

lemma completed_run_settled:
  assumes "distinct (map style_id allStyles)"
    and "handleGenerateClick c allStyles up sel = Some s0"
    and "1 \<le> c"
    and "run work evs s0 = Some s"
    and "batchCompleted s"
    and "st \<in> set (stylesToGenerate allStyles sel)"
  shows "generatedImages s (style_id st) = Some (settledImage (work st))"
proof -
  let ?jobs = "stylesToGenerate allStyles sel"
  from assms(1) have d: "distinct (map style_id ?jobs)" by (rule jobs_distinct)
  from handleGenerateClick_inv [OF assms(2)]
  have b0: "batch_inv ?jobs work s0" and f0: "flight_inv c s0" by simp_all
  from b0 d assms(4) have b: "batch_inv ?jobs work s" by (rule run_inv)
  from f0 assms(4) have f: "flight_inv c s" by (rule run_flight)
  from b f assms(3,5,6) show ?thesis by (rule completed_settled)
qed

lemma completed_run_keys:
  assumes "distinct (map style_id allStyles)"
    and "handleGenerateClick c allStyles up sel = Some s0"
    and "1 \<le> c"
    and "run work evs s0 = Some s"
    and "batchCompleted s"
  shows "{k. terminal (generatedImages s k)} = style_id ` set (stylesToGenerate allStyles sel)"
proof -
  let ?jobs = "stylesToGenerate allStyles sel"
  from assms(1) have d: "distinct (map style_id ?jobs)" by (rule jobs_distinct)
  from handleGenerateClick_inv [OF assms(2)]
  have b0: "batch_inv ?jobs work s0" and f0: "flight_inv c s0" by simp_all
  from b0 d assms(4) have b: "batch_inv ?jobs work s" by (rule run_inv)
  from f0 assms(4) have f: "flight_inv c s" by (rule run_flight)
  from b f assms(3,5) show ?thesis by (rule completed_terminal_keys)
qed

text \<open>
  Claim C1. For a batch of \<open>N\<close> jobs started by \<^verbatim>\<open>handleGenerateClick\<close> with a
  concurrency limit \<open>c\<close>, \<open>1 \<le> c \<le> N\<close>, in every run, whatever the order in which the
  calls settle: once all workers have left their loop, every submitted job has an entry
  whose status is done or error (and not both), the number of jobs in such a state is
  \<open>N\<close>, and so is the number of keys of the map in such a state. The style table is
  assumed to have pairwise different ids, as the one in the source has.
\<close>

theorem batch_all_terminal:
  assumes "distinct (map style_id allStyles)"
    and "handleGenerateClick c allStyles up sel = Some s0"
    and "1 \<le> c" and "c \<le> length (stylesToGenerate allStyles sel)"
    and "run work evs s0 = Some s"
    and "batchCompleted s"
  shows "(\<forall>st\<in>set (stylesToGenerate allStyles sel).
            \<exists>g. generatedImages s (style_id st) = Some g
              \<and> (status g = Done \<or> status g = Error)
              \<and> \<not> (status g = Done \<and> status g = Error))
         \<and> length (filter (\<lambda>st. terminal (generatedImages s (style_id st)))
              (stylesToGenerate allStyles sel))
            = length (stylesToGenerate allStyles sel)
         \<and> card {k. terminal (generatedImages s k)}
            = length (stylesToGenerate allStyles sel)"
proof -
  let ?jobs = "stylesToGenerate allStyles sel"
  have t: "terminal (generatedImages s (style_id st))" if "st \<in> set ?jobs" for st
    using completed_run_settled [OF assms(1,2,3,5,6) that] by (simp add: terminal_settled)
  have "\<exists>g. generatedImages s (style_id st) = Some g
              \<and> (status g = Done \<or> status g = Error)
              \<and> \<not> (status g = Done \<and> status g = Error)" if "st \<in> set ?jobs" for st
    using t [OF that] by (cases "generatedImages s (style_id st)") (auto simp: terminal_def)
  then have "\<forall>st\<in>set ?jobs. \<exists>g. generatedImages s (style_id st) = Some g
              \<and> (status g = Done \<or> status g = Error)
              \<and> \<not> (status g = Done \<and> status g = Error)"
    by blast
  moreover from t have "filter (\<lambda>st. terminal (generatedImages s (style_id st))) ?jobs = ?jobs"
    by (simp add: filter_id_conv)
  moreover have "card {k. terminal (generatedImages s k)} = length ?jobs"
  proof -
    from assms(1) have "distinct (map style_id ?jobs)" by (rule jobs_distinct)
    then have "card (set (map style_id ?jobs)) = length (map style_id ?jobs)"
      by (rule distinct_card)
    then have "card (style_id ` set ?jobs) = length ?jobs" by simp
    with completed_run_keys [OF assms(1,2,3,5,6)] show ?thesis by simp
  qed
  ultimately show ?thesis by simp
qed

theorem batch_all_terminal_witness:
  "distinct (map style_id demoStyles)
   \<and> handleGenerateClick 2 demoStyles (Some ''data:photo'') demoSelected = Some demoStart
   \<and> (1::nat) \<le> 2 \<and> 2 \<le> length (stylesToGenerate demoStyles demoSelected)
   \<and> run demoWork demoSchedule demoStart = Some demoFinal
   \<and> batchCompleted demoFinal
   \<and> list_all (\<lambda>st.
            \<exists>g. generatedImages demoFinal (style_id st) = Some g
              \<and> (status g = Done \<or> status g = Error)
              \<and> \<not> (status g = Done \<and> status g = Error))
         (stylesToGenerate demoStyles demoSelected)
   \<and> length (filter (\<lambda>st. terminal (generatedImages demoFinal (style_id st)))
              (stylesToGenerate demoStyles demoSelected)) = 3
   \<and> card {k. terminal (generatedImages demoFinal k)} = 3"
proof -
  have h3: "(1::nat) \<le> 2" by simp
  have h4: "2 \<le> length (stylesToGenerate demoStyles demoSelected)"
    by (simp add: demo_jobs) (simp add: demoStyles_def)
  have n: "length (stylesToGenerate demoStyles demoSelected) = 3"
    by (simp add: demo_jobs) (simp add: demoStyles_def)
  from demo_run have h5: "run demoWork demoSchedule demoStart = Some demoFinal"
    and h6: "batchCompleted demoFinal" by simp_all
  from batch_all_terminal [OF demo_distinct demo_start h3 h4 h5 h6]
    demo_distinct demo_start h4 h5 h6 n
  show ?thesis by (simp add: list_all_iff)
qed

text \<open>
  Claim C2. If the work of job \<open>k\<close> throws, then in every completed run the entry of \<open>k\<close>
  is the error state carrying the message of the thrown value, and every other job of
  the batch is in a terminal state, which is done with its own result whenever its own
  work resolves: the failure of \<open>k\<close> neither stops a worker nor changes the entry of
  another job.
\<close>

theorem batch_failure_isolated:
  assumes "distinct (map style_id allStyles)"
    and "handleGenerateClick c allStyles up sel = Some s0"
    and "1 \<le> c"
    and "run work evs s0 = Some s"
    and "batchCompleted s"
    and "k \<in> set (stylesToGenerate allStyles sel)"
    and "work k = Rejected err"
  shows "generatedImages s (style_id k)
           = Some \<lparr>status = Error, url = None, error = Some (errorMessage err)\<rparr>
         \<and> (\<forall>st\<in>set (stylesToGenerate allStyles sel). st \<noteq> k \<longrightarrow>
               terminal (generatedImages s (style_id st))
               \<and> (\<forall>resultUrl. work st = Resolved resultUrl \<longrightarrow>
                    generatedImages s (style_id st)
                      = Some \<lparr>status = Done, url = Some resultUrl, error = None\<rparr>))"
proof -
  note fin = completed_run_settled [OF assms(1,2,3,4,5)]
  from fin [OF assms(6)] assms(7) have "generatedImages s (style_id k)
           = Some \<lparr>status = Error, url = None, error = Some (errorMessage err)\<rparr>"
    by (simp add: settledImage_def)
  moreover have "terminal (generatedImages s (style_id st))
               \<and> (\<forall>resultUrl. work st = Resolved resultUrl \<longrightarrow>
                    generatedImages s (style_id st)
                      = Some \<lparr>status = Done, url = Some resultUrl, error = None\<rparr>)"
    if "st \<in> set (stylesToGenerate allStyles sel)" for st
    using fin [OF that] terminal_settled [of "work st"] by (simp add: settledImage_def)
  ultimately show ?thesis by blast
qed

theorem batch_failure_isolated_witness:
  "distinct (map style_id demoStyles)
   \<and> handleGenerateClick 2 demoStyles (Some ''data:photo'') demoSelected = Some demoStart
   \<and> (1::nat) \<le> 2
   \<and> run demoWork demoSchedule demoStart = Some demoFinal
   \<and> batchCompleted demoFinal
   \<and> \<lparr>style_id = ''side_profile'', prompt = ''p2''\<rparr> \<in> set (stylesToGenerate demoStyles demoSelected)
   \<and> demoWork \<lparr>style_id = ''side_profile'', prompt = ''p2''\<rparr> = Rejected (ErrorObject ''quota exceeded'')
   \<and> generatedImages demoFinal ''side_profile''
        = Some \<lparr>status = Error, url = None, error = Some ''quota exceeded''\<rparr>
   \<and> generatedImages demoFinal ''smiling_portrait''
        = Some \<lparr>status = Done, url = Some ''data:image/png;smiling_portrait'', error = None\<rparr>
   \<and> generatedImages demoFinal ''walking_pose''
        = Some \<lparr>status = Done, url = Some ''data:image/png;walking_pose'', error = None\<rparr>"
proof -
  let ?k = "\<lparr>style_id = ''side_profile'', prompt = ''p2''\<rparr>"
  have h3: "(1::nat) \<le> 2" by simp
  from demo_run have h4: "run demoWork demoSchedule demoStart = Some demoFinal"
    and h5: "batchCompleted demoFinal" by simp_all
  have h6: "?k \<in> set (stylesToGenerate demoStyles demoSelected)"
    by (simp add: demo_jobs) (simp add: demoStyles_def)
  have h7: "demoWork ?k = Rejected (ErrorObject ''quota exceeded'')"
    by (simp add: demoWork_def)
  have j: "set (stylesToGenerate demoStyles demoSelected) = set demoStyles"
    by (simp add: demo_jobs)
  from batch_failure_isolated [OF demo_distinct demo_start h3 h4 h5 h6 h7]
    demo_distinct demo_start h4 h5 h6 h7
  show ?thesis
    by (simp add: j errorMessage_def) (simp add: demoStyles_def demoWork_def)
qed

text \<open>
  Claim C3. In every state that a run of the batch passes through, at most \<open>c\<close> calls of
  \<^verbatim>\<open>processStyle\<close> have started and not settled, and a worker that awaits a call
  cannot take the next queue item before that call has settled.
\<close>

theorem batch_in_flight_bounded:
  assumes "handleGenerateClick c allStyles up sel = Some s0"
    and "run work evs s0 = Some s"
  shows "length (inFlight s) \<le> c
         \<and> (\<forall>i<length (workers s). \<forall>st. workers s ! i = Awaiting st \<longrightarrow>
               step work (Resume i) s = None)"
proof -
  from handleGenerateClick_inv [OF assms(1)] have "flight_inv c s0" by simp
  from this assms(2) have "flight_inv c s" by (rule run_flight)
  then have "length (inFlight s) \<le> c" by (rule flight_bound)
  then show ?thesis by (simp add: step_def)
qed

theorem batch_in_flight_bounded_witness:
  "handleGenerateClick 2 demoStyles (Some ''data:photo'') demoSelected = Some demoStart
   \<and> run demoWork [Settle 1, Resume 1] demoStart
       = Some (the (run demoWork [Settle 1, Resume 1] demoStart))
   \<and> length (inFlight (the (run demoWork [Settle 1, Resume 1] demoStart))) = 2
   \<and> length (inFlight (the (run demoWork [Settle 1, Resume 1] demoStart))) \<le> 2
   \<and> step demoWork (Resume 1) (the (run demoWork [Settle 1, Resume 1] demoStart)) = None"
proof -
  let ?s = "the (run demoWork [Settle 1, Resume 1] demoStart)"
  have h2: "run demoWork [Settle 1, Resume 1] demoStart = Some ?s"
    by (simp add: demo_start_eq step_def resume_def settle_def)
  have w: "length (workers ?s) = 2 \<and> workers ?s ! 1 = Awaiting \<lparr>style_id = ''walking_pose'', prompt = ''p3''\<rparr>
     \<and> length (inFlight ?s) = 2"
    by (simp add: demo_start_eq step_def resume_def settle_def)
  from batch_in_flight_bounded [OF demo_start h2] demo_start h2 w
  show ?thesis by simp
qed

text \<open>
  Claim C9. For a job of the style table whose entry is done or error, with a photo
  uploaded, \<^verbatim>\<open>handleRegeneratePhoto\<close> sets the entry to pending and, when its single
  call settles, to done or error; both updates leave the entry of every other key as it
  was, whatever the map has become in between.
\<close>

theorem retry_transition:
  assumes "uploadedImage = Some img" and "img \<noteq> []"
    and "photoId \<in> style_id ` set allStyles"
    and "imgs photoId = Some g"
    and "status g = Done \<or> status g = Error"
  shows "\<exists>st started.
           handleRegeneratePhoto allStyles uploadedImage photoId imgs = Some (st, started)
           \<and> style_id st = photoId
           \<and> started photoId = Some pendingImage
           \<and> (\<forall>k. k \<noteq> photoId \<longrightarrow> started k = imgs k)
           \<and> (\<forall>out later.
                 terminal (handleRegeneratePhoto_settled photoId out later photoId)
                 \<and> handleRegeneratePhoto_settled photoId out later photoId
                     = Some (settledImage out)
                 \<and> (\<forall>k. k \<noteq> photoId \<longrightarrow>
                       handleRegeneratePhoto_settled photoId out later k = later k))"
proof -
  from assms(3) obtain st where st: "find (\<lambda>s. style_id s = photoId) allStyles = Some st"
    by (cases "find (\<lambda>s. style_id s = photoId) allStyles") (auto simp: find_None_iff)
  then have id: "style_id st = photoId" by (auto simp: find_Some_iff)
  from assms(5) have np: "status g \<noteq> Pending" by auto
  have "handleRegeneratePhoto allStyles uploadedImage photoId imgs
          = Some (st, imgs(photoId \<mapsto> pendingImage))"
    using assms(1,2,4) np st by (simp add: handleRegeneratePhoto_def falsy_def)
  moreover have "terminal (handleRegeneratePhoto_settled photoId out later photoId)" for out later
    by (simp add: handleRegeneratePhoto_settled_def terminal_settled)
  ultimately show ?thesis using id by (simp add: handleRegeneratePhoto_settled_def)
qed

theorem retry_transition_witness:
  "''data:photo'' \<noteq> []
   \<and> ''side_profile'' \<in> style_id ` set demoStyles
   \<and> generatedImages demoFinal ''side_profile''
        = Some \<lparr>status = Error, url = None, error = Some ''quota exceeded''\<rparr>
   \<and> (\<exists>st started.
         handleRegeneratePhoto demoStyles (Some ''data:photo'') ''side_profile''
             (generatedImages demoFinal) = Some (st, started)
         \<and> style_id st = ''side_profile''
         \<and> started ''side_profile'' = Some pendingImage
         \<and> (\<forall>k. k \<noteq> ''side_profile'' \<longrightarrow> started k = generatedImages demoFinal k)
         \<and> (\<forall>out later.
               terminal (handleRegeneratePhoto_settled ''side_profile'' out later ''side_profile'')
               \<and> handleRegeneratePhoto_settled ''side_profile'' out later ''side_profile''
                   = Some (settledImage out)
               \<and> (\<forall>k. k \<noteq> ''side_profile'' \<longrightarrow>
                     handleRegeneratePhoto_settled ''side_profile'' out later k = later k)))"
proof -
  have h1: "''data:photo'' \<noteq> []" by simp
  have h2: "''side_profile'' \<in> style_id ` set demoStyles" by (simp add: demoStyles_def)
  have h3: "generatedImages demoFinal ''side_profile''
        = Some \<lparr>status = Error, url = None, error = Some ''quota exceeded''\<rparr>"
    by (simp add: demoFinal_def demo_start_eq demoSchedule_def step_def resume_def settle_def
        processStyle_def settledImage_def errorMessage_def demoWork_def)
  have h4: "status \<lparr>status = Error, url = None, error = Some ''quota exceeded''\<rparr> = Done
     \<or> status \<lparr>status = Error, url = None, error = Some ''quota exceeded''\<rparr> = Error" by simp
  note t = retry_transition [of "Some ''data:photo''" "''data:photo''" "''side_profile''" demoStyles
      "generatedImages demoFinal", OF refl h1 h2 h3 h4]
  show ?thesis by (intro conjI) (rule h1 h2 h3 t)+
qed

subsection \<open>Progress\<close>

text \<open>
  Every event lowers \<open>remainingSteps\<close> by one, and a state in which some worker has
  not left its loop has an enabled event. So a run has at most \<open>remainingSteps\<close>
  events, and, once every awaited call has settled, it ends with all workers exited.
\<close>

lemma weight_update:
  "i < length ws \<Longrightarrow>
   sum_list (map workerWeight (ws[i := w])) + workerWeight (ws ! i)
     = sum_list (map workerWeight ws) + workerWeight w"
proof (induction ws arbitrary: i)
  case Nil
  then show ?case by simp
next
  case (Cons a ws)
  show ?case
  proof (cases i)
    case 0
    then show ?thesis by simp
  next
    case (Suc j)
    with Cons.prems have "j < length ws" by simp
    from Cons.IH [OF this] Suc show ?thesis by simp
  qed
qed

lemma step_decreases:
  assumes "step work ev s = Some s'"
  shows "Suc (remainingSteps s') = remainingSteps s"
proof (cases ev)
  case (Resume i)
  with assms have i: "i < length (workers s)" and h: "workers s ! i = AtLoopHead"
    and s': "s' = resume i s"
    by (auto simp: step_def split: if_splits)
  show ?thesis
  proof (cases "stylesQueue s")
    case Nil
    with weight_update [OF i, of Exited] h s' show ?thesis
      by (simp add: remainingSteps_def resume_def workerWeight_def)
  next
    case (Cons st rest)
    with weight_update [OF i, of "Awaiting st"] h s' show ?thesis
      by (simp add: remainingSteps_def resume_def workerWeight_def)
  qed
next
  case (Settle i)
  with assms obtain st where i: "i < length (workers s)" and h: "workers s ! i = Awaiting st"
    and s': "s' = settle work i st s"
    by (auto simp: step_def split: if_splits worker.splits)
  with weight_update [OF i, of AtLoopHead] show ?thesis
    by (simp add: remainingSteps_def settle_def workerWeight_def)
qed

lemma some_step_enabled:
  assumes "\<not> batchCompleted s"
  shows "\<exists>ev s'. step work ev s = Some s'"
proof -
  from assms obtain i where i: "i < length (workers s)" and n: "workers s ! i \<noteq> Exited"
    by (auto simp: batchCompleted_def list_all_length)
  show ?thesis
  proof (cases "workers s ! i")
    case AtLoopHead
    with i have "step work (Resume i) s = Some (resume i s)" by (simp add: step_def)
    then show ?thesis by blast
  next
    case (Awaiting st)
    with i have "step work (Settle i) s = Some (settle work i st s)" by (simp add: step_def)
    then show ?thesis by blast
  next
    case Exited
    with n show ?thesis by simp
  qed
qed

lemma run_append:
  "run work evs s = Some s1 \<Longrightarrow> run work evs' s1 = Some s2 \<Longrightarrow> run work (evs @ evs') s = Some s2"
  by (induction evs arbitrary: s) (auto split: option.splits)

lemma batch_can_complete:
  "\<exists>evs s'. run work evs s = Some s' \<and> batchCompleted s' \<and> length evs \<le> remainingSteps s"
proof (induction "remainingSteps s" arbitrary: s rule: less_induct)
  case less
  show ?case
  proof (cases "batchCompleted s")
    case True
    moreover have "run work [] s = Some s" by simp
    ultimately show ?thesis by (metis le0 list.size(3))
  next
    case False
    from some_step_enabled [OF this] obtain ev s1 where st: "step work ev s = Some s1" by blast
    from step_decreases [OF st] have d: "remainingSteps s1 < remainingSteps s" by simp
    from less [OF d] obtain evs s' where
      r: "run work evs s1 = Some s'" "batchCompleted s'" "length evs \<le> remainingSteps s1" by blast
    from st r(1) have "run work (ev # evs) s = Some s'" by simp
    moreover from r(3) step_decreases [OF st] have "length (ev # evs) \<le> remainingSteps s" by simp
    ultimately show ?thesis using r(2) by blast
  qed
qed

lemma run_length:
  "run work evs s = Some s' \<Longrightarrow> remainingSteps s' + length evs = remainingSteps s"
proof (induction evs arbitrary: s)
  case Nil
  then show ?case by simp
next
  case (Cons ev evs)
  from Cons.prems obtain s1 where s1: "step work ev s = Some s1" "run work evs s1 = Some s'"
    by (auto split: option.splits)
  from Cons.IH [OF s1(2)] step_decreases [OF s1(1)] show ?case by simp
qed
section \<open>Properties of the rounding to a double\<close>

text \<open>
  The facts about \<open>fl\<close> that the geometry proofs rest on: it is monotone and odd, it
  leaves a number with a significand of at most 53 bits unchanged, and in the normal
  range its relative error is at most \<open>2^(-53)\<close>.
\<close>

lemma p2_add: "(2::rat) powi (m + n) = 2 powi m * 2 powi n"
  by (simp add: power_int_add)

lemma p2_diff: "(2::rat) powi (m - n) = 2 powi m / 2 powi n"
  by (simp add: power_int_diff)

lemma p2_pos: "(0::rat) < 2 powi k"
  by simp

lemma p2_mono: "m \<le> n \<Longrightarrow> (2::rat) powi m \<le> 2 powi n"
  by (simp add: power_int_increasing)

lemma p2_strict_mono: "m < n \<Longrightarrow> (2::rat) powi m < 2 powi n"
  by (simp add: power_int_strict_increasing)

lemma bitlen_powi:
  assumes "0 < (a::int)"
  shows "(2::rat) powi (bitlen a - 1) \<le> of_int a" "(of_int a :: rat) < 2 powi bitlen a"
proof -
  from bitlen_bounds [OF assms]
  have b: "2 ^ nat (bitlen a - 1) \<le> a" "a < 2 ^ nat (bitlen a)" by simp_all
  from assms have ge: "1 \<le> bitlen a" using bitlen_eq_zero_iff [of a] bitlen_nonneg [of a] by linarith
  from b(1) have "(of_int (2 ^ nat (bitlen a - 1)) :: rat) \<le> of_int a" by (simp only: of_int_le_iff)
  then show "(2::rat) powi (bitlen a - 1) \<le> of_int a" using ge by (simp add: power_int_def)
  from b(2) have "(of_int a :: rat) < of_int (2 ^ nat (bitlen a))" by (simp only: of_int_less_iff)
  then show "(of_int a :: rat) < 2 powi bitlen a" using ge by (simp add: power_int_def)
qed

lemma ilog2_bounds:
  assumes "0 < x"
  shows "2 powi ilog2 x \<le> x" "x < 2 powi (ilog2 x + 1)"
proof -
  obtain a b where q: "quotient_of x = (a, b)" by (cases "quotient_of x")
  then have b: "0 < b" and x: "x = of_int a / of_int b"
    by (simp_all add: quotient_of_denom_pos quotient_of_div)
  from assms x b have a: "0 < a" by (simp add: zero_less_divide_iff)
  define d where "d = bitlen a - bitlen b"
  have pos: "(0::rat) < 2 powi k" for k by simp
  have lo: "2 powi (d - 1) < x"
  proof -
    have "2 powi (d - 1) = (2::rat) powi (bitlen a - 1) / 2 powi bitlen b"
      by (simp add: d_def p2_diff p2_add)
    also have "\<dots> \<le> of_int a / 2 powi bitlen b"
      using bitlen_powi(1) [OF a] by (simp add: divide_right_mono)
    also have "\<dots> < of_int a / of_int b"
      using bitlen_powi(2) [OF b] a b by (simp add: divide_strict_left_mono)
    finally show ?thesis by (simp add: x)
  qed
  have hi: "x < 2 powi (d + 1)"
  proof -
    have "x < 2 powi bitlen a / of_int b"
      using bitlen_powi(2) [OF a] b by (simp add: x divide_strict_right_mono)
    also have "\<dots> \<le> 2 powi bitlen a / 2 powi (bitlen b - 1)"
      using bitlen_powi(1) [OF b] b by (intro divide_left_mono) simp_all
    also have "\<dots> = 2 powi (d + 1)"
      by (simp add: d_def p2_diff p2_add)
    finally show ?thesis .
  qed
  have e: "ilog2 x = (if 2 powi d \<le> x then d else d - 1)"
    by (simp add: ilog2_def q d_def Let_def)
  show "2 powi ilog2 x \<le> x" using lo by (simp add: e)
  show "x < 2 powi (ilog2 x + 1)" using hi by (simp add: e not_le)
qed

lemma ilog2_unique:
  assumes "2 powi e \<le> x" "x < 2 powi (e + 1)"
  shows "ilog2 x = e"
proof -
  have "(0::rat) < 2 powi e" by simp
  with assms(1) have pos: "0 < x" by linarith
  note b = ilog2_bounds [OF pos]
  have "\<not> ilog2 x < e"
  proof
    assume "ilog2 x < e"
    then have "ilog2 x + 1 \<le> e" by simp
    then have "(2::rat) powi (ilog2 x + 1) \<le> 2 powi e" by (simp add: power_int_increasing)
    with b(2) assms(1) show False by linarith
  qed
  moreover have "\<not> e < ilog2 x"
  proof
    assume "e < ilog2 x"
    then have "e + 1 \<le> ilog2 x" by simp
    then have "(2::rat) powi (e + 1) \<le> 2 powi ilog2 x" by (simp add: power_int_increasing)
    with b(1) assms(2) show False by linarith
  qed
  ultimately show ?thesis by linarith
qed

lemma ilog2_mono:
  assumes "0 < x" "x \<le> y"
  shows "ilog2 x \<le> ilog2 y"
proof (rule ccontr)
  assume "\<not> ilog2 x \<le> ilog2 y"
  then have "ilog2 y + 1 \<le> ilog2 x" by simp
  then have "(2::rat) powi (ilog2 y + 1) \<le> 2 powi ilog2 x" by (simp add: power_int_increasing)
  moreover from assms have "0 < y" by linarith
  ultimately show False
    using ilog2_bounds(1) [OF assms(1)] ilog2_bounds(2) [OF \<open>0 < y\<close>] assms(2) by linarith
qed


lemma rhe_cases: "round_half_even m = \<lfloor>m\<rfloor> \<or> round_half_even m = \<lfloor>m\<rfloor> + 1"
  by (simp add: round_half_even_def Let_def)

lemma rhe_error: "\<bar>of_int (round_half_even m) - m\<bar> \<le> 1 / 2"
proof -
  have "of_int \<lfloor>m\<rfloor> \<le> m" "m < of_int \<lfloor>m\<rfloor> + 1" by linarith+
  then show ?thesis by (auto simp: round_half_even_def Let_def)
qed

lemma rhe_int [simp]: "round_half_even (of_int n) = n"
  by (simp add: round_half_even_def)

lemma rhe_mono:
  assumes "m \<le> m'"
  shows "round_half_even m \<le> round_half_even m'"
proof -
  from assms have f: "\<lfloor>m\<rfloor> \<le> \<lfloor>m'\<rfloor>" by (rule floor_mono)
  show ?thesis
  proof (cases "\<lfloor>m\<rfloor> = \<lfloor>m'\<rfloor>")
    case True
    with assms show ?thesis by (auto simp: round_half_even_def Let_def)
  next
    case False
    with f have "\<lfloor>m\<rfloor> + 1 \<le> \<lfloor>m'\<rfloor>" by simp
    moreover have "round_half_even m \<le> \<lfloor>m\<rfloor> + 1" using rhe_cases [of m] by auto
    moreover have "\<lfloor>m'\<rfloor> \<le> round_half_even m'" using rhe_cases [of m'] by auto
    ultimately show ?thesis by linarith
  qed
qed

lemma rhe_minus: "round_half_even (- m) = - round_half_even m"
proof (cases "m = of_int \<lfloor>m\<rfloor>")
  case True
  then obtain n where "m = of_int n" ..
  then have "- m = of_int (- n)" by simp
  then show ?thesis unfolding \<open>m = of_int n\<close> by (simp only: rhe_int)
next
  case False
  then have lt: "of_int \<lfloor>m\<rfloor> < m" by linarith
  have "m < of_int \<lfloor>m\<rfloor> + 1" by linarith
  with lt have "\<lfloor>- m\<rfloor> = - \<lfloor>m\<rfloor> - 1"
    by (intro floor_unique) simp_all
  then show ?thesis using lt by (auto simp: round_half_even_def Let_def)
qed

lemma exponent_minus [simp]: "exponent (- x) = exponent x"
  by (simp add: exponent_def)

lemma ulp_minus [simp]: "ulp (- x) = ulp x"
  by (simp add: ulp_def)

lemma ulp_pos [simp]: "0 < ulp x"
  by (simp add: ulp_def)

lemma ulp_nz [simp]: "ulp x \<noteq> 0"
  using ulp_pos [of x] by linarith

lemma ulp_nonneg [simp]: "0 \<le> ulp x"
  using ulp_pos [of x] by linarith

lemma fl_minus: "fl (- x) = - fl x"
  by (simp add: fl_def rhe_minus)

lemma fl_0 [simp]: "fl 0 = 0"
  using rhe_int [of 0] by (simp add: fl_def)

lemma fl_error: "\<bar>fl x - x\<bar> \<le> ulp x / 2"
proof -
  have "fl x - x = (of_int (round_half_even (x / ulp x)) - x / ulp x) * ulp x"
    by (simp add: fl_def algebra_simps)
  then have "\<bar>fl x - x\<bar> = \<bar>of_int (round_half_even (x / ulp x)) - x / ulp x\<bar> * ulp x"
    by (simp add: abs_mult)
  also have "\<dots> \<le> 1 / 2 * ulp x"
    by (rule mult_right_mono [OF rhe_error]) simp
  finally show ?thesis by simp
qed

lemma exponent_ge: "- 1022 \<le> exponent x"
  by (simp add: exponent_def)

lemma ilog2_normal:
  assumes "2 powi (- 1022) \<le> x"
  shows "- 1022 \<le> ilog2 x"
proof (rule ccontr)
  assume "\<not> - 1022 \<le> ilog2 x"
  then have "ilog2 x + 1 \<le> - 1022" by simp
  then have "(2::rat) powi (ilog2 x + 1) \<le> 2 powi (- 1022)" by (rule p2_mono)
  moreover have "0 < x" using assms p2_pos [of "- 1022"] by linarith
  ultimately show False using ilog2_bounds(2) [of x] assms by linarith
qed

lemma exponent_normal:
  assumes "2 powi (- 1022) \<le> \<bar>x\<bar>"
  shows "exponent x = ilog2 \<bar>x\<bar>"
  using ilog2_normal [OF assms] by (simp add: exponent_def)

lemma ulp_le:
  assumes "2 powi (- 1022) \<le> \<bar>x\<bar>"
  shows "ulp x \<le> \<bar>x\<bar> / 2 ^ 52"
proof -
  have pos: "0 < \<bar>x\<bar>" using assms p2_pos [of "- 1022"] by linarith
  have "ulp x = 2 powi ilog2 \<bar>x\<bar> / 2 ^ 52"
    by (simp add: ulp_def exponent_normal [OF assms] p2_diff)
  also have "\<dots> \<le> \<bar>x\<bar> / 2 ^ 52"
    using ilog2_bounds(1) [OF pos] by (simp add: divide_right_mono)
  finally show ?thesis .
qed

lemma fl_rel:
  assumes "2 powi (- 1022) \<le> \<bar>x\<bar>"
  shows "\<bar>fl x - x\<bar> \<le> \<bar>x\<bar> / 2 ^ 53"
proof -
  have "\<bar>fl x - x\<bar> \<le> ulp x / 2" by (rule fl_error)
  also have "\<dots> \<le> (\<bar>x\<bar> / 2 ^ 52) / 2" using ulp_le [OF assms] by simp
  also have "\<dots> = \<bar>x\<bar> / 2 ^ 53" by simp
  finally show ?thesis .
qed

lemma fl_nonneg: "0 \<le> x \<Longrightarrow> 0 \<le> fl x"
proof -
  assume "0 \<le> x"
  then have "0 \<le> x / ulp x" by simp
  then have "round_half_even 0 \<le> round_half_even (x / ulp x)" by (rule rhe_mono)
  then have "0 \<le> round_half_even (x / ulp x)" using rhe_int [of 0] by simp
  then show ?thesis by (simp add: fl_def)
qed

lemma fl_nonpos: "x \<le> 0 \<Longrightarrow> fl x \<le> 0"
  using fl_nonneg [of "- x"] by (simp add: fl_minus)

lemma quotient_upper:
  assumes "0 < x"
  shows "x / ulp x < 2 ^ 53"
proof -
  have "ilog2 x \<le> exponent x" using assms by (simp add: exponent_def)
  then have "(2::rat) powi (ilog2 x + 1) \<le> 2 powi (exponent x + 1)" by (simp add: p2_mono)
  with ilog2_bounds(2) [OF assms] have "x < 2 powi (exponent x + 1)" by linarith
  also have "\<dots> = 2 ^ 53 * ulp x"
  proof -
    have "exponent x + 1 = 53 + (exponent x - 52)" by simp
    then have "(2::rat) powi (exponent x + 1) = 2 powi 53 * 2 powi (exponent x - 52)"
      by (simp only: p2_add)
    then show ?thesis by (simp add: ulp_def)
  qed
  finally show ?thesis by (simp add: pos_divide_less_eq)
qed

lemma fl_upper:
  assumes "0 < x"
  shows "fl x \<le> 2 ^ 53 * ulp x"
proof -
  have "x / ulp x \<le> of_int (2 ^ 53)" using quotient_upper [OF assms] by simp
  then have "round_half_even (x / ulp x) \<le> round_half_even (of_int (2 ^ 53))" by (rule rhe_mono)
  then have "round_half_even (x / ulp x) \<le> 2 ^ 53" by (simp only: rhe_int)
  then have "(of_int (round_half_even (x / ulp x)) :: rat) \<le> of_int (2 ^ 53)"
    by (simp only: of_int_le_iff)
  then show ?thesis by (simp add: fl_def)
qed

lemma fl_lower:
  assumes "2 powi (- 1022) \<le> x"
  shows "2 ^ 52 * ulp x \<le> fl x"
proof -
  have pos: "0 < x" using assms p2_pos [of "- 1022"] by linarith
  have a: "2 powi (- 1022) \<le> \<bar>x\<bar>" using assms pos by simp
  have "2 ^ 52 * ulp x = 2 powi ilog2 x"
  proof -
    have "(2::rat) powi (52 + (ilog2 x - 52)) = 2 powi 52 * 2 powi (ilog2 x - 52)"
      by (simp only: p2_add)
    then show ?thesis using pos by (simp add: ulp_def exponent_normal [OF a])
  qed
  also have "\<dots> \<le> x" by (rule ilog2_bounds(1) [OF pos])
  finally have "of_int (2 ^ 52) \<le> x / ulp x" by (simp add: pos_le_divide_eq)
  then have "round_half_even (of_int (2 ^ 52)) \<le> round_half_even (x / ulp x)" by (rule rhe_mono)
  then have "2 ^ 52 \<le> round_half_even (x / ulp x)" by (simp only: rhe_int)
  then have "(of_int (2 ^ 52) :: rat) \<le> of_int (round_half_even (x / ulp x))"
    by (simp only: of_int_le_iff)
  then show ?thesis by (simp add: fl_def)
qed

lemma exponent_mono:
  assumes "0 < x" "x \<le> y"
  shows "exponent x \<le> exponent y"
  using ilog2_mono [OF assms] assms by (simp add: exponent_def)

lemma fl_mono_pos:
  assumes "0 < x" "x \<le> y"
  shows "fl x \<le> fl y"
proof (cases "exponent x = exponent y")
  case True
  then have u: "ulp x = ulp y" by (simp add: ulp_def)
  from assms(2) have "x / ulp y \<le> y / ulp y" by (simp add: divide_right_mono)
  then have "round_half_even (x / ulp y) \<le> round_half_even (y / ulp y)" by (rule rhe_mono)
  then show ?thesis by (simp add: fl_def u)
next
  case False
  with exponent_mono [OF assms] have lt: "exponent x < exponent y" by simp
  from assms have ypos: "0 < y" by linarith
  have "- 1022 < exponent y" using lt exponent_ge [of x] by linarith
  then have ey: "exponent y = ilog2 y" using ypos by (simp add: exponent_def)
  have "- 1022 \<le> ilog2 y" using \<open>- 1022 < exponent y\<close> ey by simp
  have ynorm: "2 powi (- 1022) \<le> y"
  proof -
    have "(2::rat) powi (- 1022) \<le> 2 powi ilog2 y" using \<open>- 1022 \<le> ilog2 y\<close> by (rule p2_mono)
    with ilog2_bounds(1) [OF ypos] show ?thesis by linarith
  qed
  have "fl x \<le> 2 ^ 53 * ulp x" by (rule fl_upper [OF assms(1)])
  also have "\<dots> = 2 powi (exponent x + 1)"
  proof -
    have "(2::rat) powi (53 + (exponent x - 52)) = 2 powi 53 * 2 powi (exponent x - 52)"
      by (simp only: p2_add)
    then show ?thesis by (simp add: ulp_def add.commute)
  qed
  also have "\<dots> \<le> 2 powi exponent y" using lt by (simp add: p2_mono)
  also have "\<dots> = 2 ^ 52 * ulp y"
  proof -
    have "(2::rat) powi (52 + (exponent y - 52)) = 2 powi 52 * 2 powi (exponent y - 52)"
      by (simp only: p2_add)
    then show ?thesis by (simp add: ulp_def)
  qed
  also have "\<dots> \<le> fl y" by (rule fl_lower [OF ynorm])
  finally show ?thesis .
qed

lemma fl_mono:
  assumes "x \<le> y"
  shows "fl x \<le> fl y"
proof -
  consider "0 < x" | "x \<le> 0" "0 \<le> y" | "y < 0" by linarith
  then show ?thesis
  proof cases
    case 1
    then show ?thesis using assms by (rule fl_mono_pos)
  next
    case 2
    then show ?thesis using fl_nonpos [of x] fl_nonneg [of y] by linarith
  next
    case 3
    then have "0 < - y" "- y \<le> - x" using assms by simp_all
    then have "fl (- y) \<le> fl (- x)" by (rule fl_mono_pos)
    then show ?thesis by (simp add: fl_minus)
  qed
qed

lemma fl_of_quotient:
  assumes "x / ulp x = of_int k"
  shows "fl x = x"
proof -
  have "fl x = of_int k * ulp x" by (simp add: fl_def assms)
  also have "\<dots> = x / ulp x * ulp x" by (simp only: assms)
  also have "\<dots> = x" by simp
  finally show ?thesis .
qed

lemma fl_repr_pos:
  assumes n: "0 < n" "n \<le> 2 ^ 53" and j: "- 1074 \<le> j"
  shows "fl (of_int n * 2 powi j) = of_int n * 2 powi j"
proof -
  define x :: rat where "x = of_int n * 2 powi j"
  have pos: "0 < x" using n(1) by (simp add: x_def)
  define e where "e = exponent x"
  have u: "ulp x = 2 powi (e - 52)" by (simp add: ulp_def e_def)
  have "\<exists>k. x / ulp x = of_int k"
  proof (cases "e - 52 \<le> j")
    case True
    have "x / ulp x = x / 2 powi (e - 52)" by (simp only: u)
    also have "\<dots> = of_int n * (2 powi j / 2 powi (e - 52))" by (simp add: x_def)
    also have "\<dots> = of_int n * 2 powi (j - (e - 52))" by (simp only: p2_diff)
    also have "\<dots> = of_int n * 2 ^ nat (j - (e - 52))"
      using True by (simp add: power_int_def)
    also have "\<dots> = of_int (n * 2 ^ nat (j - (e - 52)))" by simp
    finally show ?thesis by blast
  next
    case False
    then have gt: "j + 53 \<le> e" by simp
    with j have "- 1022 < e" by linarith
    then have ee: "e = ilog2 x" using pos by (simp add: e_def exponent_def)
    have "2 powi e \<le> x" using ilog2_bounds(1) [OF pos] by (simp add: ee)
    moreover have "x \<le> 2 powi (j + 53)"
    proof -
      have "(of_int n :: rat) \<le> of_int (2 ^ 53)" using n(2) by (simp only: of_int_le_iff)
      then have "x \<le> 2 ^ 53 * 2 powi j" by (simp add: x_def)
      also have "\<dots> = 2 powi (53 + j)"
        using p2_add [of 53 j] by simp
      finally show ?thesis by (simp add: add.commute)
    qed
    moreover have "(2::rat) powi (j + 53) \<le> 2 powi e" using gt by (rule p2_mono)
    ultimately have xe: "x = 2 powi e" and "2 powi e = (2::rat) powi (j + 53)" by linarith+
    then have "e = j + 53"
      using p2_strict_mono [of e "j + 53"] p2_strict_mono [of "j + 53" e]
      by (metis less_irrefl linorder_neqE_linordered_idom)
    have "x / ulp x = x / 2 powi (e - 52)" by (simp only: u)
    also have "\<dots> = 2 powi e / 2 powi (e - 52)" by (subst xe) (rule refl)
    also have "\<dots> = 2 powi (e - (e - 52))" by (simp only: p2_diff)
    also have "\<dots> = of_int (2 ^ 52)" by simp
    finally show ?thesis by blast
  qed
  then obtain k where "x / ulp x = of_int k" ..
  then have "fl x = x" by (rule fl_of_quotient)
  then show ?thesis by (simp add: x_def)
qed

lemma fl_repr:
  assumes "\<bar>n\<bar> \<le> 2 ^ 53" "- 1074 \<le> j"
  shows "fl (of_int n * 2 powi j) = of_int n * 2 powi j"
proof -
  consider "0 < n" | "n = 0" | "n < 0" by linarith
  then show ?thesis
  proof cases
    case 1
    with assms show ?thesis by (simp add: fl_repr_pos)
  next
    case 2
    then show ?thesis by simp
  next
    case 3
    with assms have "fl (of_int (- n) * 2 powi j) = of_int (- n) * 2 powi j"
      by (intro fl_repr_pos) simp_all
    then have "fl (- (of_int n * 2 powi j)) = - (of_int n * 2 powi j)" by simp
    then show ?thesis by (simp only: fl_minus neg_equal_iff_equal)
  qed
qed

lemma fl_int: "\<bar>n\<bar> \<le> 2 ^ 53 \<Longrightarrow> fl (of_int n) = of_int n"
  using fl_repr [of n 0] by simp

lemma fl_idem: "fl (fl x) = fl x"
proof -
  have pos: "fl (fl x) = fl x" if "0 < x" for x
  proof -
    define N where "N = round_half_even (x / ulp x)"
    have "round_half_even 0 \<le> N" unfolding N_def using that by (intro rhe_mono) simp
    then have N0: "0 \<le> N" using rhe_int [of 0] by simp
    have "x / ulp x \<le> of_int (2 ^ 53)" using quotient_upper [OF that] by simp
    then have "N \<le> round_half_even (of_int (2 ^ 53))" unfolding N_def by (rule rhe_mono)
    then have N1: "N \<le> 2 ^ 53" by (simp only: rhe_int)
    have f: "fl x = of_int N * 2 powi (exponent x - 52)" by (simp add: fl_def N_def ulp_def)
    have "- 1074 \<le> exponent x - 52" using exponent_ge [of x] by simp
    with N0 N1 show ?thesis unfolding f by (intro fl_repr) simp_all
  qed
  consider "0 < x" | "x = 0" | "x < 0" by linarith
  then show ?thesis
  proof cases
    case 1
    then show ?thesis by (rule pos)
  next
    case 2
    then show ?thesis by simp
  next
    case 3
    then have "fl (fl (- x)) = fl (- x)" by (intro pos) simp
    then show ?thesis by (simp add: fl_minus)
  qed
qed

lemma rhe_unique:
  assumes "\<bar>m - of_int n\<bar> < 1 / 2"
  shows "round_half_even m = n"
proof -
  have "\<bar>(of_int (round_half_even m) :: rat) - of_int n\<bar> < 1"
    using rhe_error [of m] assms by linarith
  then have "\<bar>(of_int (round_half_even m - n) :: rat)\<bar> < 1" by simp
  then have "\<bar>round_half_even m - n\<bar> < 1" by (simp only: of_int_abs [symmetric] of_int_less_1_iff)
  then show ?thesis by simp
qed

lemma fl_eq:
  assumes "2 powi e \<le> \<bar>x\<bar>" "\<bar>x\<bar> < 2 powi (e + 1)" "- 1022 \<le> e"
    and "\<bar>x / 2 powi (e - 52) - of_int n\<bar> < 1 / 2"
  shows "fl x = of_int n * 2 powi (e - 52)"
proof -
  have "ilog2 \<bar>x\<bar> = e" using assms(1,2) by (rule ilog2_unique)
  then have "exponent x = e" using assms(3) by (simp add: exponent_def)
  then have u: "ulp x = 2 powi (e - 52)" by (simp add: ulp_def)
  show ?thesis unfolding fl_def u using assms(4) by (simp add: rhe_unique)
qed

lemma fl_dyadic_le:
  assumes "x \<le> of_int n * 2 powi j" "\<bar>n\<bar> \<le> 2 ^ 53" "- 1074 \<le> j"
  shows "fl x \<le> of_int n * 2 powi j"
  using fl_mono [OF assms(1)] fl_repr [OF assms(2,3)] by simp

lemma fl_dyadic_ge:
  assumes "of_int n * 2 powi j \<le> x" "\<bar>n\<bar> \<le> 2 ^ 53" "- 1074 \<le> j"
  shows "of_int n * 2 powi j \<le> fl x"
  using fl_mono [OF assms(1)] fl_repr [OF assms(2,3)] by simp

lemma fl_int_le: "x \<le> of_int n \<Longrightarrow> \<bar>n\<bar> \<le> 2 ^ 53 \<Longrightarrow> fl x \<le> of_int n"
  using fl_dyadic_le [of x n 0] by simp

lemma fl_int_ge: "of_int n \<le> x \<Longrightarrow> \<bar>n\<bar> \<le> 2 ^ 53 \<Longrightarrow> of_int n \<le> fl x"
  using fl_dyadic_ge [of n 0 x] by simp

lemma fl_pow2: "- 1074 \<le> k \<Longrightarrow> fl (2 powi k) = 2 powi k"
  using fl_repr [of 1 k] by simp

lemma fl_pos:
  assumes "2 powi (- 1074) \<le> x"
  shows "0 < fl x"
proof -
  have e: "fl (2 powi (- 1074)) = 2 powi (- 1074)" by (rule fl_pow2) simp
  have "fl (2 powi (- 1074)) \<le> fl x" using assms by (rule fl_mono)
  then have "2 powi (- 1074) \<le> fl x" by (simp only: e)
  with p2_pos [of "- 1074"] show ?thesis by linarith
qed

lemma fl_bounds:
  assumes "2 powi (- 1022) \<le> x"
  shows "x * (1 - 1 / 2 ^ 53) \<le> fl x" "fl x \<le> x * (1 + 1 / 2 ^ 53)"
proof -
  have pos: "0 < x" using assms p2_pos [of "- 1022"] by linarith
  then have "2 powi (- 1022) \<le> \<bar>x\<bar>" using assms by simp
  from fl_rel [OF this] pos have "\<bar>fl x - x\<bar> \<le> x / 2 ^ 53" by simp
  then have b: "fl x - x \<le> x / 2 ^ 53" "- (x / 2 ^ 53) \<le> fl x - x" by linarith+
  have lo: "x * (1 - 1 / 2 ^ 53) = x - x / 2 ^ 53" by (simp only: right_diff_distrib) simp
  have hi: "x * (1 + 1 / 2 ^ 53) = x + x / 2 ^ 53" by (simp only: distrib_left) simp
  show "x * (1 - 1 / 2 ^ 53) \<le> fl x" unfolding lo using b(2) by linarith
  show "fl x \<le> x * (1 + 1 / 2 ^ 53)" unfolding hi using b(1) by linarith
qed

lemma fl_below_overflow:
  assumes "\<bar>x\<bar> \<le> 2 ^ 1023"
  shows "\<bar>fl x\<bar> < 2 ^ 1024"
proof -
  have p: "fl (2 ^ 1023) = (2 ^ 1023 :: rat)" using fl_pow2 [of 1023] by simp
  from assms have a: "x \<le> 2 ^ 1023" "- (2 ^ 1023) \<le> x" by linarith+
  have "fl x \<le> fl (2 ^ 1023)" "fl (- (2 ^ 1023)) \<le> fl x"
    by (rule fl_mono [OF a(1)]) (rule fl_mono [OF a(2)])
  then have "fl x \<le> 2 ^ 1023" "- (2 ^ 1023) \<le> fl x" by (simp_all only: fl_minus p)
  moreover have "(2 ^ 1023 :: rat) < 2 ^ 1024" by simp
  ultimately show ?thesis by linarith
qed

lemma fl_abs_err:
  assumes "\<bar>x\<bar> \<le> B" "2 powi (- 1022) \<le> B"
  shows "\<bar>fl x - x\<bar> \<le> B / 2 ^ 53"
proof (cases "2 powi (- 1022) \<le> \<bar>x\<bar>")
  case True
  from fl_rel [OF True] have "\<bar>fl x - x\<bar> \<le> \<bar>x\<bar> / 2 ^ 53" .
  also have "\<dots> \<le> B / 2 ^ 53" using assms(1) by (simp add: divide_right_mono)
  finally show ?thesis .
next
  case False
  then have small: "\<bar>x\<bar> < 2 powi (- 1022)" by simp
  show ?thesis
  proof (cases "x = 0")
    case True
    have "(0::rat) < 2 powi (- 1022)" by (rule p2_pos)
    with assms(2) have "0 \<le> B" by linarith
    with True show ?thesis by simp
  next
    case False
    then have pos: "0 < \<bar>x\<bar>" by simp
    have "\<not> - 1022 \<le> ilog2 \<bar>x\<bar>"
    proof
      assume "- 1022 \<le> ilog2 \<bar>x\<bar>"
      then have "(2::rat) powi (- 1022) \<le> 2 powi ilog2 \<bar>x\<bar>" by (rule p2_mono)
      with ilog2_bounds(1) [OF pos] small show False by linarith
    qed
    then have e: "exponent x = - 1022" by (simp add: exponent_def)
    have "(2::rat) powi (- 1022 - 52) = 2 powi (- 1022) / 2 powi 52" by (rule p2_diff)
    then have "ulp x / 2 = 2 powi (- 1022) / 2 ^ 53" by (simp add: ulp_def e)
    also have "\<dots> \<le> B / 2 ^ 53" using assms(2) by (simp add: divide_right_mono)
    finally show ?thesis using fl_error [of x] by linarith
  qed
qed

lemma fl_grid52:
  assumes "1 \<le> \<bar>x\<bar>"
  shows "\<exists>N. fl x = of_int N * 2 powi (- 52)"
proof -
  have "(2::rat) powi (- 1022) \<le> 2 powi 0" by (rule p2_mono) simp
  with assms have n: "2 powi (- 1022) \<le> \<bar>x\<bar>" by simp
  have pos: "0 < \<bar>x\<bar>" using assms by linarith
  have e0: "0 \<le> ilog2 \<bar>x\<bar>"
  proof (rule ccontr)
    assume "\<not> 0 \<le> ilog2 \<bar>x\<bar>"
    then have "ilog2 \<bar>x\<bar> + 1 \<le> 0" by simp
    then have "(2::rat) powi (ilog2 \<bar>x\<bar> + 1) \<le> 2 powi 0" by (rule p2_mono)
    with ilog2_bounds(2) [OF pos] assms show False by simp
  qed
  define e where "e = ilog2 \<bar>x\<bar>"
  have "ulp x = 2 powi (e - 52)" by (simp add: ulp_def exponent_normal [OF n] e_def)
  also have "\<dots> = 2 powi e * 2 powi (- 52)" using p2_add [of e "- 52"] by simp
  also have "\<dots> = of_int (2 ^ nat e) * 2 powi (- 52)"
    using e0 by (simp add: e_def power_int_def)
  finally have "fl x = of_int (round_half_even (x / ulp x) * 2 ^ nat e) * 2 powi (- 52)"
    by (simp add: fl_def)
  then show ?thesis by blast
qed

lemma sub_half_exact:
  assumes y: "fl y = y" "1 \<le> y" and n: "of_int n < y" "y - of_int n \<le> 1"
  shows "fl (of_int n - y) = of_int n - y" "fl ((of_int n - y) / 2) = (of_int n - y) / 2"
proof -
  from y(2) have "1 \<le> \<bar>y\<bar>" by simp
  from fl_grid52 [OF this] y(1) obtain N where N: "y = of_int N * 2 powi (- 52)" by auto
  define M where "M = n * 2 ^ 52 - N"
  have p: "(2::rat) powi (- 52) * 2 ^ 52 = 1" by simp
  have d: "of_int n - y = of_int M * 2 powi (- 52)"
  proof -
    have "of_int M * (2::rat) powi (- 52) = of_int n * (2 ^ 52 * 2 powi (- 52)) - of_int N * 2 powi (- 52)"
      by (simp add: M_def algebra_simps)
    also have "\<dots> = of_int n - y" by (simp add: N)
    finally show ?thesis by simp
  qed
  from n have "\<bar>of_int n - y\<bar> \<le> 1" by linarith
  then have "\<bar>of_int M * (2::rat) powi (- 52)\<bar> \<le> 1" by (simp only: d)
  then have "\<bar>(of_int M :: rat)\<bar> \<le> 2 ^ 52" by (simp add: abs_mult field_simps)
  then have "\<bar>(of_int M :: rat)\<bar> \<le> of_int (2 ^ 52)" by simp
  then have "(of_int \<bar>M\<bar> :: rat) \<le> of_int (2 ^ 52)" by (simp only: of_int_abs)
  then have M52: "\<bar>M\<bar> \<le> 2 ^ 52" by (simp only: of_int_le_iff)
  then have M53: "\<bar>M\<bar> \<le> 2 ^ 53" by simp
  show "fl (of_int n - y) = of_int n - y" unfolding d using M53 by (intro fl_repr) simp_all
  have h: "(of_int n - y) / 2 = of_int M * 2 powi (- 53)"
  proof -
    have "(2::rat) powi (- 52 - 1) = 2 powi (- 52) / 2 powi 1" by (rule p2_diff)
    then show ?thesis by (simp add: d)
  qed
  show "fl ((of_int n - y) / 2) = (of_int n - y) / 2" unfolding h using M53 by (intro fl_repr) simp_all
qed

subsection \<open>Relative errors\<close>

lemma normal_of_ge:
  fixes x :: rat
  assumes "1 / 2 ^ 200 \<le> x"
  shows "2 powi (- 1022) \<le> \<bar>x\<bar>" "2 powi (- 1022) \<le> x"
proof -
  have "(2::rat) powi (- 1022) \<le> 2 powi (- 200)" by (rule p2_mono) simp
  also have "\<dots> = 1 / 2 ^ 200" by (simp add: power_int_minus_divide)
  finally show "2 powi (- 1022) \<le> x" using assms by linarith
  then show "2 powi (- 1022) \<le> \<bar>x\<bar>" by linarith
qed

lemma rel_err_fl: "1 / 2 ^ 200 \<le> x \<Longrightarrow> rel_err (1 / 2 ^ 53) x (fl x)"
  using fl_rel [OF normal_of_ge(1)] by (simp add: rel_err_def)

lemma rel_err_refl: "rel_err 0 x x"
  by (simp add: rel_err_def)

lemma rel_err_mono: "rel_err k x y \<Longrightarrow> k \<le> k' \<Longrightarrow> rel_err k' x y"
proof -
  assume a: "rel_err k x y" "k \<le> k'"
  then have "k * \<bar>x\<bar> \<le> k' * \<bar>x\<bar>" by (intro mult_right_mono) simp_all
  with a(1) show ?thesis unfolding rel_err_def by linarith
qed

lemma rel_err_trans:
  assumes "rel_err k1 x y" "rel_err k2 y z" "0 \<le> k2"
  shows "rel_err (k1 + k2 + k1 * k2) x z"
proof -
  from assms(1) have a: "\<bar>y - x\<bar> \<le> k1 * \<bar>x\<bar>" by (simp add: rel_err_def)
  from assms(2) have b: "\<bar>z - y\<bar> \<le> k2 * \<bar>y\<bar>" by (simp add: rel_err_def)
  from a have "\<bar>y\<bar> \<le> \<bar>x\<bar> + k1 * \<bar>x\<bar>" by linarith
  then have "k2 * \<bar>y\<bar> \<le> k2 * (\<bar>x\<bar> + k1 * \<bar>x\<bar>)" using assms(3) by (rule mult_left_mono)
  with a b have "\<bar>z - x\<bar> \<le> k1 * \<bar>x\<bar> + k2 * (\<bar>x\<bar> + k1 * \<bar>x\<bar>)" by linarith
  also have "\<dots> = (k1 + k2 + k1 * k2) * \<bar>x\<bar>" by (simp add: algebra_simps)
  finally show ?thesis by (simp add: rel_err_def)
qed

lemma rel_err_mult_left:
  assumes "rel_err k x y"
  shows "rel_err k (c * x) (c * y)"
proof -
  from assms have "\<bar>y - x\<bar> \<le> k * \<bar>x\<bar>" by (simp add: rel_err_def)
  then have "\<bar>c\<bar> * \<bar>y - x\<bar> \<le> \<bar>c\<bar> * (k * \<bar>x\<bar>)" by (intro mult_left_mono) simp_all
  moreover have "\<bar>c * y - c * x\<bar> = \<bar>c\<bar> * \<bar>y - x\<bar>"
    by (simp add: abs_mult [symmetric] right_diff_distrib)
  ultimately show ?thesis by (simp add: rel_err_def abs_mult algebra_simps)
qed

lemma rel_err_mult_right:
  assumes "rel_err k x y"
  shows "rel_err k (x * c) (y * c)"
  using rel_err_mult_left [OF assms, of c] by (simp add: mult.commute)

lemma rel_err_inverse:
  assumes "rel_err k x y" "0 \<le> k" "k \<le> 1 / 2" "x \<noteq> 0"
  shows "rel_err (2 * k) (1 / x) (1 / y)"
proof -
  from assms(1) have a: "\<bar>y - x\<bar> \<le> k * \<bar>x\<bar>" by (simp add: rel_err_def)
  from assms(4) have xp: "0 < \<bar>x\<bar>" by simp
  have "k * \<bar>x\<bar> \<le> 1 / 2 * \<bar>x\<bar>" using assms(3) by (intro mult_right_mono) simp_all
  with a have yl: "\<bar>x\<bar> / 2 \<le> \<bar>y\<bar>" by linarith
  with xp have yp: "0 < \<bar>y\<bar>" by linarith
  then have yn: "y \<noteq> 0" by auto
  have "1 / y - 1 / x = (x - y) / (x * y)" using assms(4) yn by (simp add: field_simps)
  then have "\<bar>1 / y - 1 / x\<bar> = \<bar>y - x\<bar> / (\<bar>x\<bar> * \<bar>y\<bar>)"
    by (simp add: abs_mult abs_minus_commute)
  also have "\<dots> \<le> (k * \<bar>x\<bar>) / (\<bar>x\<bar> * \<bar>y\<bar>)"
    using a xp yp by (intro divide_right_mono) simp_all
  also have "\<dots> = k / \<bar>y\<bar>" using xp by simp
  also have "\<dots> \<le> k / (\<bar>x\<bar> / 2)"
    using yl xp yp assms(2) by (intro divide_left_mono) simp_all
  also have "\<dots> = 2 * k * \<bar>1 / x\<bar>" using xp by (simp add: abs_divide)
  finally show ?thesis by (simp add: rel_err_def)
qed

lemma rel_err_abs:
  assumes "rel_err k x y" "\<bar>x\<bar> \<le> B" "0 \<le> k"
  shows "\<bar>y - x\<bar> \<le> k * B"
proof -
  from assms(1) have "\<bar>y - x\<bar> \<le> k * \<bar>x\<bar>" by (simp add: rel_err_def)
  also have "\<dots> \<le> k * B" using assms(2,3) by (rule mult_left_mono)
  finally show ?thesis .
qed

lemma rel_err_bounds:
  assumes "rel_err k x y" "0 \<le> x"
  shows "x * (1 - k) \<le> y" "y \<le> x * (1 + k)"
proof -
  from assms have "\<bar>y - x\<bar> \<le> k * x" by (simp add: rel_err_def)
  then have "y - x \<le> k * x" "- (k * x) \<le> y - x" by linarith+
  then show "x * (1 - k) \<le> y" "y \<le> x * (1 + k)" by (simp_all add: algebra_simps)
qed

subsection \<open>The arithmetic on finite values\<close>

lemma double_of_fin: "\<bar>fl x\<bar> < 2 ^ 1024 \<Longrightarrow> double_of neg x = signed_fin neg (fl x)"
  by (simp add: double_of_def Let_def)

lemma double_of_nonneg:
  assumes "0 \<le> x" "fl x < 2 ^ 1024"
  shows "double_of False x = Fin (fl x)"
proof -
  from assms(1) have "0 \<le> fl x" by (rule fl_nonneg)
  with assms(2) show ?thesis by (simp add: double_of_def Let_def signed_fin_def)
qed

lemma double_of_nonneg_cases:
  assumes "0 \<le> x"
  shows "double_of False x = PosInf \<or> double_of False x = Fin (fl x) \<and> fl x < 2 ^ 1024"
proof -
  from assms have "0 \<le> fl x" by (rule fl_nonneg)
  then show ?thesis by (simp add: double_of_def Let_def signed_fin_def signed_inf_def)
qed

lemma double_of_exact:
  assumes "fl x = x" "\<bar>x\<bar> < 2 ^ 1024"
  shows "double_of neg x = signed_fin neg x"
  using assms by (simp add: double_of_def Let_def)

lemma js_mul_Fin: "js_mul (Fin x) (Fin y) = double_of ((x < 0) \<noteq> (y < 0)) (x * y)"
  by (simp add: js_mul_def is_inf_def signbit_def val_def)

lemma js_mul_nonneg:
  "0 \<le> x \<Longrightarrow> 0 \<le> y \<Longrightarrow> fl (x * y) < 2 ^ 1024 \<Longrightarrow> js_mul (Fin x) (Fin y) = Fin (fl (x * y))"
  by (simp add: js_mul_Fin not_less double_of_nonneg)

lemma js_mul_nonneg_cases:
  assumes "0 \<le> x" "0 \<le> y"
  shows "js_mul (Fin x) (Fin y) = PosInf
         \<or> js_mul (Fin x) (Fin y) = Fin (fl (x * y)) \<and> fl (x * y) < 2 ^ 1024"
  using assms double_of_nonneg_cases [of "x * y"] by (simp add: js_mul_Fin not_less)

lemma js_div_Fin:
  "y \<noteq> 0 \<Longrightarrow> js_div (Fin x) (Fin y) = double_of ((x < 0) \<noteq> (y < 0)) (x / y)"
  by (simp add: js_div_def is_inf_def is_zero_def signbit_def val_def)

lemma js_div_pos:
  "0 \<le> x \<Longrightarrow> 0 < y \<Longrightarrow> fl (x / y) < 2 ^ 1024 \<Longrightarrow> js_div (Fin x) (Fin y) = Fin (fl (x / y))"
  by (simp add: js_div_Fin not_less double_of_nonneg)

lemma js_div_pos_cases:
  assumes "0 \<le> x" "0 < y"
  shows "js_div (Fin x) (Fin y) = PosInf
         \<or> js_div (Fin x) (Fin y) = Fin (fl (x / y)) \<and> fl (x / y) < 2 ^ 1024"
  using assms double_of_nonneg_cases [of "x / y"] by (simp add: js_div_Fin not_less)

lemma js_div_zero: "0 < x \<Longrightarrow> js_div (Fin x) (Fin 0) = PosInf"
  by (simp add: js_div_def is_inf_def is_zero_def signbit_def signed_inf_def)

lemma js_add_nonneg:
  assumes "0 \<le> x" "0 \<le> y" "fl (x + y) < 2 ^ 1024"
  shows "js_add (Fin x) (Fin y) = Fin (fl (x + y))"
proof (cases "x + y = 0")
  case True
  then show ?thesis by (simp add: js_add_def is_inf_def val_def)
next
  case False
  with assms have "0 \<le> x + y" "\<not> x + y < 0" by simp_all
  with False assms(3) show ?thesis
    by (simp add: js_add_def is_inf_def val_def Let_def double_of_nonneg)
qed

lemma js_add_nonneg_cases:
  assumes "0 \<le> x" "0 \<le> y"
  shows "js_add (Fin x) (Fin y) = PosInf
         \<or> js_add (Fin x) (Fin y) = Fin (fl (x + y)) \<and> fl (x + y) < 2 ^ 1024"
proof (cases "fl (x + y) < 2 ^ 1024")
  case True
  with assms show ?thesis by (simp add: js_add_nonneg)
next
  case False
  then have "x + y \<noteq> 0" by auto
  moreover from assms have "0 \<le> fl (x + y)" by (simp add: fl_nonneg)
  ultimately show ?thesis using False assms
    by (simp add: js_add_def is_inf_def val_def Let_def double_of_def signed_inf_def not_less)
qed

lemma js_sub_Fin:
  "js_sub (Fin x) (Fin y) = (if x = y then Fin 0 else double_of (x < y) (x - y))"
  by (simp add: js_sub_def js_neg_def js_add_def is_inf_def val_def Let_def)

lemma js_sub_less:
  assumes "y < x" "fl (x - y) < 2 ^ 1024"
  shows "js_sub (Fin x) (Fin y) = Fin (fl (x - y))"
  using assms by (simp add: js_sub_Fin double_of_nonneg)

lemma js_lt_Fin: "js_lt (Fin x) (Fin y) = (x < y)"
  by (simp add: js_lt_def val_def)

lemma js_gt_Fin: "js_gt (Fin x) (Fin y) = (y < x)"
  by (simp add: js_gt_def js_lt_Fin)

lemma js_abs_Fin: "js_abs (Fin x) = Fin \<bar>x\<bar>"
  by (simp add: js_abs_def)

lemma js_round_nonneg: "0 \<le> x \<Longrightarrow> js_round (Fin x) = Fin (of_int \<lfloor>x + 1 / 2\<rfloor>)"
  by (simp add: js_round_def Let_def)

section \<open>Properties of the geometry utilities\<close>

lemma double_of_0 [simp]: "double_of neg 0 = signed_fin neg 0"
  by (simp add: double_of_def)

lemma double_of_int:
  assumes "0 \<le> n" "n \<le> 2 ^ 53"
  shows "double_of False (of_int n) = Fin (of_int n)"
proof -
  from assms have e: "fl (of_int n) = of_int n" by (intro fl_int) simp
  from assms(2) have "(of_int n :: rat) \<le> of_int (2 ^ 53)" by (simp only: of_int_le_iff)
  then have "(of_int n :: rat) < 2 ^ 1024" by simp
  with assms(1) e show ?thesis by (simp add: double_of_def signed_fin_def)
qed

lemma double_of_numeral:
  "(numeral k :: int) \<le> 2 ^ 53 \<Longrightarrow> double_of False (numeral k) = Fin (numeral k)"
  using double_of_int [of "numeral k"] by simp

lemma double_of_1: "double_of False 1 = Fin 1"
  using double_of_int [of 1] by simp

lemma tolerance_value: "double_of False (1 / 100) = Fin (fl (1 / 100))" "0 < fl (1 / 100)"
proof -
  have "fl (1 / 100) \<le> of_int 1" by (rule fl_int_le) simp_all
  then show "double_of False (1 / 100) = Fin (fl (1 / 100))" by (simp add: double_of_nonneg)
  show "0 < fl (1 / 100)" by (rule fl_pos) simp
qed


lemma not_within_zero:
  assumes "1 / 100 \<le> q"
  shows "\<not> withinTolerance (Fin 0) (double_of False q)"
proof -
  from assms have q: "0 \<le> q" by simp
  from double_of_nonneg_cases [OF q] show ?thesis
  proof
    assume "double_of False q = PosInf"
    then show ?thesis
      by (simp add: withinTolerance_def js_sub_def js_neg_def js_add_def is_inf_def js_abs_def
          js_lt_def)
  next
    assume a: "double_of False q = Fin (fl q) \<and> fl q < 2 ^ 1024"
    have ge: "fl (1 / 100) \<le> fl q" using assms by (rule fl_mono)
    with tolerance_value(2) have pos: "0 < fl q" by linarith
    have "fl (0 - fl q) = - fl q" by (simp add: fl_minus fl_idem)
    with pos a have "js_sub (Fin 0) (Fin (fl q)) = Fin (- fl q)"
      by (simp add: js_sub_Fin double_of_def signed_fin_def)
    with a pos ge show ?thesis
      by (simp add: withinTolerance_def js_abs_Fin tolerance_value js_lt_Fin)
  qed
qed

lemma jsNumber_digit:
  "jsNumber ''0'' = Fin 0" "jsNumber ''1'' = Fin 1" "jsNumber ''3'' = Fin 3"
  "jsNumber ''4'' = Fin 4" "jsNumber ''9'' = Fin 9" "jsNumber ''16'' = Fin 16"
  "jsNumber ''-1'' = Fin (- 1)"
  by (simp_all add: jsNumber_def trim_def is_ws_def unsigned_decimal_def is_digit_def
      digit_of_def exponent_part_def js_neg_def double_of_numeral double_of_1 signed_fin_def)

lemma canvas_dimension_int:
  assumes "0 \<le> n" "n \<le> 2147483647"
  shows "canvas_dimension d (Fin (of_int n)) = nat n"
proof -
  from assms have m: "n mod 2 ^ 32 = n" by simp
  from assms have "nat n \<le> 2147483647" by linarith
  with assms m show ?thesis
    by (simp add: canvas_dimension_def to_unsigned_long_def Let_def)
qed

lemma canvas_dimension_frac:
  assumes "0 \<le> q" "q < 2147483648"
  shows "canvas_dimension d (Fin q) = nat \<lfloor>q\<rfloor>"
proof -
  from assms(1) have n0: "0 \<le> \<lfloor>q\<rfloor>" by simp
  from assms(2) have "\<lfloor>q\<rfloor> < 2147483648" by (simp add: floor_less_iff)
  then have n1: "\<lfloor>q\<rfloor> \<le> 2147483647" by simp
  from n0 n1 have m: "\<lfloor>q\<rfloor> mod 2 ^ 32 = \<lfloor>q\<rfloor>" by simp
  from n0 n1 have "nat \<lfloor>q\<rfloor> \<le> 2147483647" by linarith
  with assms(1) m show ?thesis
    by (simp add: canvas_dimension_def to_unsigned_long_def Let_def)
qed


lemma parse_16_9: "parseAspectRatio ''16:9'' = Some (Fin 16, Fin 9)"
  by (simp add: parseAspectRatio_def jsNumber_digit isNaN_def js_strict_eq_def is_zero_def)

lemma parse_0_4: "parseAspectRatio ''0:4'' = Some (Fin 0, Fin 4)"
  by (simp add: parseAspectRatio_def jsNumber_digit isNaN_def js_strict_eq_def is_zero_def)

lemma parse_neg: "parseAspectRatio ''-1:4'' = Some (Fin (- 1), Fin 4)"
  by (simp add: parseAspectRatio_def jsNumber_digit isNaN_def js_strict_eq_def is_zero_def)




lemma resize_invalid_iff:
  "resizeImageToAspectRatio env dataUrl s = Inl ''Invalid aspect ratio format''
   \<longleftrightarrow> parseAspectRatio s = None"
  by (simp add: resizeImageToAspectRatio_def Let_def split: option.splits prod.splits)

lemma parse_None_iff:
  "parseAspectRatio s = None \<longleftrightarrow>
     (case map jsNumber (split CHR '':'' s) of
        wRatio # hRatio # _ \<Rightarrow> isNaN wRatio \<or> isNaN hRatio \<or> js_strict_eq hRatio (Fin 0)
      | _ \<Rightarrow> True)"
  by (simp add: parseAspectRatio_def split: list.splits)

lemma paddedSize_zero_ratio:
  assumes "0 < w" "0 < h"
  shows "paddedSize (Fin w) (Fin h) (Fin 0) = (Fin w, PosInf)"
proof -
  from assms have q: "0 \<le> w / h" by simp
  from assms have d: "js_div (Fin w) (Fin h) = double_of False (w / h)"
    by (simp add: js_div_Fin not_less less_imp_le)
  have "\<not> js_gt (Fin 0) (double_of False (w / h))"
    using double_of_nonneg_cases [OF q] fl_nonneg [OF q]
    by (auto simp: js_gt_def js_lt_def val_def)
  with assms show ?thesis by (simp add: paddedSize_def d js_div_zero)
qed

lemma paddedCanvas_zero_ratio:
  assumes "0 < w" "0 < h"
  shows "paddedCanvas (Fin w) (Fin h) (Fin 0) =
     \<lparr>width = 0, height = 0,
      ops = [FillRect ''#000000'' (Fin 0, Fin 0, Fin 0, NaN),
             DrawImage (Some (Fin 0, Fin 0, Fin w, Fin h)) (Fin 0, NaN, Fin 0, Fin 0)]\<rparr>"
proof -
  have s: "scaleFor (Fin w) PosInf = Fin 0"
    by (simp add: scaleFor_def js_gt_def js_lt_def MAX_DIMENSION_def js_div_def is_inf_def
        signbit_def signed_fin_def)
  have m: "js_mul (Fin w) (Fin 0) = Fin 0" "js_mul (Fin h) (Fin 0) = Fin 0"
    using assms by (simp_all add: js_mul_nonneg)
  have i: "js_mul PosInf (Fin 0) = NaN" by (simp add: js_mul_def is_inf_def is_zero_def)
  have "\<lfloor>(1::rat) / 2\<rfloor> = 0" by (rule floor_unique) simp_all
  then have r: "js_round (Fin 0) = Fin 0" "js_round NaN = NaN"
    by (simp_all add: js_round_def)
  have d: "js_div (js_sub (Fin 0) (Fin 0)) (Fin 2) = Fin 0"
    "js_div (js_sub NaN (Fin 0)) (Fin 2) = NaN"
    by (simp_all add: js_sub_Fin js_div_pos) (simp add: js_sub_def js_add_def js_div_def)
  have c: "canvas_dimension 300 (Fin 0) = 0" "canvas_dimension 150 NaN = 0"
    by (simp_all add: canvas_dimension_def to_unsigned_long_def)
  show ?thesis
    by (simp add: paddedCanvas_def Let_def paddedSize_zero_ratio [OF assms] s m i r d c)
qed


text \<open>
  Claim C10. The validation rejects with the format error exactly when a parsed
  component is \<open>NaN\<close> (a missing second component counts) or the second one is zero.
  The strings \<^verbatim>\<open>0:4\<close> and \<^verbatim>\<open>-1:4\<close> pass it. For \<^verbatim>\<open>0:4\<close> the target ratio
  is 0; for an image with positive sides that is outside the tolerance, the letterbox
  branch sets the canvas height to \<open>origWidth / 0 = Infinity\<close>, and the promise
  resolves with the encoding of a canvas of size 0 by 0: the error branch is not
  reached.
\<close>

theorem resize_zero_width_ratio_accepted:
  assumes "decode env dataUrl = Some (imgWidth, imgHeight)"
    and "getContext env"
    and "0 < imgWidth" and "0 < imgHeight"
    and "imgHeight \<le> 100 * imgWidth"
  shows "(\<forall>s. resizeImageToAspectRatio env dataUrl s = Inl ''Invalid aspect ratio format''
            \<longleftrightarrow> (case map jsNumber (split CHR '':'' s) of
                   wRatio # hRatio # _ \<Rightarrow>
                     isNaN wRatio \<or> isNaN hRatio \<or> js_strict_eq hRatio (Fin 0)
                 | _ \<Rightarrow> True))
         \<and> parseAspectRatio ''0:4'' = Some (Fin 0, Fin 4)
         \<and> parseAspectRatio ''-1:4'' = Some (Fin (- 1), Fin 4)
         \<and> js_div (Fin 0) (Fin 4) = Fin 0
         \<and> \<not> withinTolerance (Fin 0) (js_div (js_of_nat imgWidth) (js_of_nat imgHeight))
         \<and> paddedSize (js_of_nat imgWidth) (js_of_nat imgHeight) (Fin 0)
             = (js_of_nat imgWidth, PosInf)
         \<and> resizeImageToAspectRatio env dataUrl ''0:4''
             = Inr (toDataURL env
                 \<lparr>width = 0, height = 0,
                  ops = [FillRect ''#000000'' (Fin 0, Fin 0, Fin 0, NaN),
                         DrawImage (Some (Fin 0, Fin 0, js_of_nat imgWidth, js_of_nat imgHeight))
                           (Fin 0, NaN, Fin 0, Fin 0)]\<rparr>)"
proof -
  let ?w = "of_nat imgWidth :: rat" and ?h = "of_nat imgHeight :: rat"
  from assms(3,4) have pos: "0 < ?w" "0 < ?h" by simp_all
  have d: "js_div (Fin 0) (Fin 4) = Fin 0" by (simp add: js_div_pos)
  have ratio: "js_div (Fin ?w) (Fin ?h) = double_of False (?w / ?h)"
    using pos by (simp add: js_div_Fin not_less less_imp_le)
  from assms(5) have "?h \<le> 100 * ?w" by (metis of_nat_le_iff of_nat_mult of_nat_numeral)
  with pos have "1 / 100 \<le> ?w / ?h" by (simp add: field_simps)
  then have tol: "\<not> withinTolerance (Fin 0) (double_of False (?w / ?h))"
    by (rule not_within_zero)
  have size: "paddedSize (js_of_nat imgWidth) (js_of_nat imgHeight) (Fin 0)
      = (js_of_nat imgWidth, PosInf)"
    using paddedSize_zero_ratio [OF pos] by (simp add: js_of_nat_def)
  have res: "resizeImageToAspectRatio env dataUrl ''0:4''
      = Inr (toDataURL env (paddedCanvas (Fin ?w) (Fin ?h) (Fin 0)))"
    using assms(1,2) tol ratio
    by (simp add: resizeImageToAspectRatio_def parse_0_4 d js_of_nat_def)
  show ?thesis
    using tol size res
    by (simp add: resize_invalid_iff parse_None_iff parse_0_4 parse_neg d ratio
        paddedCanvas_zero_ratio [OF pos] js_of_nat_def)
qed

theorem resize_zero_width_ratio_accepted_witness:
  "decode testBrowser ''data:photo'' = Some (600, 800)
   \<and> getContext testBrowser
   \<and> (0::nat) < 600 \<and> (0::nat) < 800 \<and> (800::nat) \<le> 100 * 600
   \<and> parseAspectRatio ''0:4'' = Some (Fin 0, Fin 4)
   \<and> paddedSize (js_of_nat 600) (js_of_nat 800) (Fin 0) = (js_of_nat 600, PosInf)
   \<and> resizeImageToAspectRatio testBrowser ''data:photo'' ''0:4''
       = Inr ''data:image/jpeg;base64,AA''
   \<and> resizeImageToAspectRatio testBrowser ''data:photo'' ''4:0''
       = Inl ''Invalid aspect ratio format''"
proof -
  have h1: "decode testBrowser ''data:photo'' = Some (600, 800)" by (simp add: testBrowser_def)
  have h2: "getContext testBrowser" by (simp add: testBrowser_def)
  have h3: "(0::nat) < 600" and h4: "(0::nat) < 800" and h5: "(800::nat) \<le> 100 * 600"
    by simp_all
  have e: "toDataURL testBrowser c = ''data:image/jpeg;base64,'' @ replicate (length (ops c)) CHR ''A''"
    for c by (simp add: testBrowser_def)
  note t = resize_zero_width_ratio_accepted [OF h1 h2 h3 h4 h5]
  from t have "resizeImageToAspectRatio testBrowser ''data:photo'' ''4:0''
       = Inl ''Invalid aspect ratio format''"
    by (simp add: jsNumber_digit js_strict_eq_def is_zero_def)
  with t h1 h2 show ?thesis
    by (simp add: e numeral_2_eq_2)
qed
section \<open>Properties of the padded resize\<close>

text \<open>The products with the scale factor. \<open>c\<close> is a canvas side or an image side,
  \<open>s\<close> the scale.\<close>

lemma scaled_product:
  assumes s: "0 < s" "s \<le> 1" "1 / 2 ^ 100 \<le> s"
    and c: "1 / 2 ^ 60 \<le> c"
    and p: "c * s \<le> 1024 * (1 + 1 / 2 ^ 53)"
  shows "js_mul (Fin c) (Fin s) = Fin (fl (c * s))"
    and "rel_err (1 / 2 ^ 53) (c * s) (fl (c * s))"
    and "0 \<le> fl (c * s)" and "fl (c * s) \<le> 1024 + 1 / 4"
proof -
  from c have c0: "0 < c" by (simp add: less_le_trans [of 0 "1 / 2 ^ 60"])
  have "1 / 2 ^ 60 * (1 / 2 ^ 100) \<le> c * s"
    using c s(3) by (intro mult_mono) simp_all
  then have lo: "1 / 2 ^ 200 \<le> c * s" by simp
  show r: "rel_err (1 / 2 ^ 53) (c * s) (fl (c * s))" using lo by (rule rel_err_fl)
  from c0 s(1) have p0: "0 \<le> c * s" by simp
  show "0 \<le> fl (c * s)" using p0 by (rule fl_nonneg)
  from rel_err_bounds(2) [OF r p0] p show b: "fl (c * s) \<le> 1024 + 1 / 4" by simp
  then have "fl (c * s) < 2 ^ 1024" by simp
  with c0 s(1) show "js_mul (Fin c) (Fin s) = Fin (fl (c * s))"
    by (intro js_mul_nonneg) simp_all
qed

text \<open>Lines 60 to 67: the scale, for two positive canvas sides.\<close>

lemma scaleFor_double:
  assumes cw: "1 / 2 ^ 60 \<le> cw" "cw \<le> 2 ^ 90"
    and ch: "1 / 2 ^ 60 \<le> ch" "ch \<le> 2 ^ 90"
  shows "\<exists>s. scaleFor (Fin cw) (Fin ch) = Fin s \<and> 0 < s \<and> s \<le> 1 \<and> 1 / 2 ^ 100 \<le> s
           \<and> cw * s \<le> 1024 * (1 + 1 / 2 ^ 53) \<and> ch * s \<le> 1024 * (1 + 1 / 2 ^ 53)"
proof -
  from cw have cw0: "0 < cw" by (simp add: less_le_trans [of 0 "1 / 2 ^ 60"])
  from ch have ch0: "0 < ch" by (simp add: less_le_trans [of 0 "1 / 2 ^ 60"])
  have big: "\<exists>s. js_div (Fin 1024) (Fin m) = Fin s \<and> 0 < s \<and> s \<le> 1 \<and> 1 / 2 ^ 100 \<le> s
      \<and> m * s \<le> 1024 * (1 + 1 / 2 ^ 53)"
    if m: "1024 < m" "m \<le> 2 ^ 90" for m :: rat
  proof -
    define q where "q = 1024 / m"
    from m have m0: "0 < m" by simp
    have q1: "q \<le> 1" using m by (simp add: q_def)
    have "1024 / 2 ^ 90 \<le> 1024 / m" using m by (intro divide_left_mono) simp_all
    then have ql: "1 / 2 ^ 80 \<le> q" by (simp add: q_def)
    then have "1 / 2 ^ 200 \<le> q" by simp
    then have r: "rel_err (1 / 2 ^ 53) q (fl q)" by (rule rel_err_fl)
    from ql have q0: "0 \<le> q" by simp
    have "q \<le> of_int 1" using q1 by simp
    then have "fl q \<le> of_int 1" by (rule fl_int_le) simp
    then have s1: "fl q \<le> 1" by simp
    from rel_err_bounds(1) [OF r q0] ql have sl: "1 / 2 ^ 100 \<le> fl q" by simp
    then have s0: "0 < fl q" by (simp add: less_le_trans [of 0 "1 / 2 ^ 100"])
    from s1 have "fl q < 2 ^ 1024" by simp
    with m0 have d: "js_div (Fin 1024) (Fin m) = Fin (fl q)"
      unfolding q_def by (intro js_div_pos) simp_all
    have "rel_err (1 / 2 ^ 53) (m * q) (m * fl q)" using r by (rule rel_err_mult_left)
    moreover have "m * q = 1024" using m0 by (simp add: q_def)
    ultimately have "rel_err (1 / 2 ^ 53) 1024 (m * fl q)" by simp
    from rel_err_bounds(2) [OF this] have "m * fl q \<le> 1024 * (1 + 1 / 2 ^ 53)" by simp
    with d s0 s1 sl show ?thesis by blast
  qed
  show ?thesis
  proof (cases "1024 < cw \<or> 1024 < ch")
    case False
    then have "cw * 1 \<le> 1024 * (1 + 1 / 2 ^ 53)" "ch * 1 \<le> 1024 * (1 + 1 / 2 ^ 53)" by simp_all
    moreover from False have "scaleFor (Fin cw) (Fin ch) = Fin 1"
      by (simp add: scaleFor_def MAX_DIMENSION_def js_gt_Fin)
    ultimately show ?thesis by (intro exI [of _ 1]) simp
  next
    case True
    show ?thesis
    proof (cases "ch < cw")
      case wide: True
      with True have "1024 < cw" by linarith
      from big [OF this cw(2)] obtain s where
        s: "js_div (Fin 1024) (Fin cw) = Fin s" "0 < s" "s \<le> 1" "1 / 2 ^ 100 \<le> s"
          "cw * s \<le> 1024 * (1 + 1 / 2 ^ 53)" by blast
      from wide s(2) have "ch * s \<le> cw * s" by (intro mult_right_mono) simp_all
      with s(5) have "ch * s \<le> 1024 * (1 + 1 / 2 ^ 53)" by linarith
      moreover from True wide have "scaleFor (Fin cw) (Fin ch) = Fin s"
        by (simp add: scaleFor_def MAX_DIMENSION_def js_gt_Fin s(1))
      ultimately show ?thesis using s by blast
    next
      case tall: False
      with True have "1024 < ch" by linarith
      from big [OF this ch(2)] obtain s where
        s: "js_div (Fin 1024) (Fin ch) = Fin s" "0 < s" "s \<le> 1" "1 / 2 ^ 100 \<le> s"
          "ch * s \<le> 1024 * (1 + 1 / 2 ^ 53)" by blast
      from tall s(2) have "cw * s \<le> ch * s" by (intro mult_right_mono) simp_all
      with s(5) have "cw * s \<le> 1024 * (1 + 1 / 2 ^ 53)" by linarith
      moreover from True tall have "scaleFor (Fin cw) (Fin ch) = Fin s"
        by (simp add: scaleFor_def MAX_DIMENSION_def js_gt_Fin s(1))
      ultimately show ?thesis using s by blast
    qed
  qed
qed

text \<open>\<^verbatim>\<open>Math.round\<close> of a scaled side, as a canvas dimension.\<close>

lemma rounded_side:
  assumes "0 \<le> v" "v \<le> 1024 + 1 / 4"
  shows "canvas_dimension d (js_round (Fin v)) = nat \<lfloor>v + 1 / 2\<rfloor>"
    and "nat \<lfloor>v + 1 / 2\<rfloor> \<le> 1024"
    and "\<bar>of_nat (nat \<lfloor>v + 1 / 2\<rfloor>) - v\<bar> \<le> 1 / 2"
proof -
  from assms(1) have n0: "0 \<le> \<lfloor>v + 1 / 2\<rfloor>" by simp
  from assms(2) have "v + 1 / 2 < 1025" by simp
  then have "\<lfloor>v + 1 / 2\<rfloor> < 1025" by (simp add: floor_less_iff)
  then have n1: "\<lfloor>v + 1 / 2\<rfloor> \<le> 1024" by simp
  from n1 have "\<lfloor>v + 1 / 2\<rfloor> \<le> 2147483647" by linarith
  from canvas_dimension_int [OF n0 this, of d]
  show "canvas_dimension d (js_round (Fin v)) = nat \<lfloor>v + 1 / 2\<rfloor>"
    using assms(1) by (simp only: js_round_nonneg)
  from n0 n1 show "nat \<lfloor>v + 1 / 2\<rfloor> \<le> 1024" by linarith
  have "of_int \<lfloor>v + 1 / 2\<rfloor> \<le> v + 1 / 2" "v + 1 / 2 < of_int \<lfloor>v + 1 / 2\<rfloor> + 1" by linarith+
  moreover have "(of_nat (nat \<lfloor>v + 1 / 2\<rfloor>) :: rat) = of_int \<lfloor>v + 1 / 2\<rfloor>"
    using n0 by simp
  ultimately show "\<bar>of_nat (nat \<lfloor>v + 1 / 2\<rfloor>) - v\<bar> \<le> 1 / 2" by linarith
qed

lemma range_weaken:
  fixes x :: rat
  shows "1 / 2 ^ 53 \<le> x \<Longrightarrow> 1 / 2 ^ 200 \<le> x"
    and "1 / 2 ^ 53 \<le> x \<Longrightarrow> 1 / 2 ^ 60 \<le> x"
    and "x \<le> 2 ^ 85 \<Longrightarrow> x \<le> 2 ^ 90"
    and "1 \<le> x \<Longrightarrow> 1 / 2 ^ 60 \<le> x"
    and "x \<le> 2 ^ 32 \<Longrightarrow> x \<le> 2 ^ 90"
proof -
  have a: "(1::rat) / 2 ^ 200 \<le> 1 / 2 ^ 53" "(1::rat) / 2 ^ 60 \<le> 1 / 2 ^ 53"
    "(2::rat) ^ 85 \<le> 2 ^ 90" "(1::rat) / 2 ^ 60 \<le> 1" "(2::rat) ^ 32 \<le> 2 ^ 90"
    by simp_all
  show "1 / 2 ^ 53 \<le> x \<Longrightarrow> 1 / 2 ^ 200 \<le> x" using a(1) by (rule order_trans)
  show "1 / 2 ^ 53 \<le> x \<Longrightarrow> 1 / 2 ^ 60 \<le> x" using a(2) by (rule order_trans)
  show "x \<le> 2 ^ 85 \<Longrightarrow> x \<le> 2 ^ 90" using a(3) by (rule order_trans [rotated])
  show "1 \<le> x \<Longrightarrow> 1 / 2 ^ 60 \<le> x" using a(4) by (rule order_trans)
  show "x \<le> 2 ^ 32 \<Longrightarrow> x \<le> 2 ^ 90" using a(5) by (rule order_trans [rotated])
qed

text \<open>Lines 48 to 57: the two sides of the padded canvas, each within a relative error
  of \<open>4 * 2^(-53)\<close> of the side of a rectangle \<open>x0\<close> by \<open>y0\<close> whose ratio is the target
  ratio \<open>a / b\<close> itself.\<close>

lemma paddedSize_double:
  fixes a b w h :: rat
  assumes a: "1 \<le> a" "a \<le> 2 ^ 53" and b: "1 \<le> b" "b \<le> 2 ^ 53"
    and w: "1 \<le> w" "w \<le> 2 ^ 32" and h: "1 \<le> h" "h \<le> 2 ^ 32"
  shows "js_div (Fin a) (Fin b) = Fin (fl (a / b))"
    and "\<exists>cw ch x0 y0.
           paddedSize (Fin w) (Fin h) (Fin (fl (a / b))) = (Fin cw, Fin ch)
           \<and> 1 / 2 ^ 60 \<le> cw \<and> cw \<le> 2 ^ 90 \<and> 1 / 2 ^ 60 \<le> ch \<and> ch \<le> 2 ^ 90
           \<and> 0 < x0 \<and> 0 < y0 \<and> x0 / y0 = a / b
           \<and> rel_err (4 / 2 ^ 53) x0 cw \<and> rel_err (4 / 2 ^ 53) y0 ch"
proof -
  define t0 where "t0 = a / b"
  define t where "t = fl t0"
  have t0l: "1 / 2 ^ 53 \<le> t0"
  proof -
    have "1 / 2 ^ 53 \<le> 1 / b" using b by (intro divide_left_mono) simp_all
    also have "\<dots> \<le> a / b" using a b by (intro divide_right_mono) simp_all
    finally show ?thesis by (simp add: t0_def)
  qed
  have t0u: "t0 \<le> 2 ^ 53"
  proof -
    have "a / b \<le> a / 1" using a b by (intro divide_left_mono) simp_all
    with a show ?thesis by (simp add: t0_def)
  qed
  from t0l have t0p: "0 < t0" by (simp add: less_le_trans [of 0 "1 / 2 ^ 53"])
  have "of_int 1 * 2 powi (- 53) \<le> t0" using t0l by (simp add: power_int_minus_divide)
  then have "of_int 1 * 2 powi (- 53) \<le> fl t0" by (rule fl_dyadic_ge) simp_all
  then have tl: "1 / 2 ^ 53 \<le> t" by (simp add: t_def power_int_minus_divide)
  have "t0 \<le> of_int (2 ^ 53)" using t0u by simp
  then have "fl t0 \<le> of_int (2 ^ 53)" by (rule fl_int_le) simp
  then have tu: "t \<le> 2 ^ 53" by (simp add: t_def)
  from tl have tp: "0 < t" by (simp add: less_le_trans [of 0 "1 / 2 ^ 53"])
  have "1 / 2 ^ 200 \<le> t0" using t0l by (rule range_weaken)
  then have rt: "rel_err (1 / 2 ^ 53) t0 t" unfolding t_def by (rule rel_err_fl)
  from tu have "fl (a / b) < 2 ^ 1024" by (simp add: t_def t0_def)
  with a b show "js_div (Fin a) (Fin b) = Fin (fl (a / b))" by (intro js_div_pos) simp_all
  define orat where "orat = fl (w / h)"
  have "w / h \<le> w / 1" using w h by (intro divide_left_mono) simp_all
  with w have "w / h \<le> of_int (2 ^ 32)" by simp
  then have "fl (w / h) \<le> of_int (2 ^ 32)" by (rule fl_int_le) simp
  then have "fl (w / h) < 2 ^ 1024" by simp
  with w h have O: "js_div (Fin w) (Fin h) = Fin orat"
    unfolding orat_def by (intro js_div_pos) simp_all
  from w h have w0: "0 < w" and h0: "0 < h" by simp_all
  have "\<exists>cw ch x0 y0.
           paddedSize (Fin w) (Fin h) (Fin t) = (Fin cw, Fin ch)
           \<and> 1 / 2 ^ 60 \<le> cw \<and> cw \<le> 2 ^ 90 \<and> 1 / 2 ^ 60 \<le> ch \<and> ch \<le> 2 ^ 90
           \<and> 0 < x0 \<and> 0 < y0 \<and> x0 / y0 = t0
           \<and> rel_err (4 / 2 ^ 53) x0 cw \<and> rel_err (4 / 2 ^ 53) y0 ch"
  proof (cases "orat < t")
    case True
    define cw where "cw = fl (h * t)"
    have pl: "1 / 2 ^ 53 \<le> h * t"
    proof -
      have "1 * t \<le> h * t" using h tp by (intro mult_right_mono) simp_all
      then have "t \<le> h * t" by simp
      with tl show ?thesis by (rule order_trans)
    qed
    have pu: "h * t \<le> 2 ^ 85"
    proof -
      have "h * t \<le> 2 ^ 32 * 2 ^ 53" using h tu tp by (intro mult_mono) simp_all
      then show ?thesis by simp
    qed
    have "of_int 1 * 2 powi (- 53) \<le> h * t" using pl by (simp add: power_int_minus_divide)
    then have "of_int 1 * 2 powi (- 53) \<le> fl (h * t)" by (rule fl_dyadic_ge) simp_all
    then have cwl: "1 / 2 ^ 53 \<le> cw" by (simp add: cw_def power_int_minus_divide)
    have "h * t \<le> of_int 1 * 2 powi 85" using pu by simp
    then have "fl (h * t) \<le> of_int 1 * 2 powi 85" by (rule fl_dyadic_le) simp_all
    then have cwu: "cw \<le> 2 ^ 85" by (simp add: cw_def)
    then have "fl (h * t) < 2 ^ 1024" by (simp add: cw_def)
    with h0 tp have M: "js_mul (Fin h) (Fin t) = Fin cw"
      unfolding cw_def by (intro js_mul_nonneg) simp_all
    have r1: "rel_err (1 / 2 ^ 53) (h * t0) (h * t)" using rt by (rule rel_err_mult_left)
    have "1 / 2 ^ 200 \<le> h * t" using pl by (rule range_weaken)
    then have r2: "rel_err (1 / 2 ^ 53) (h * t) cw" unfolding cw_def by (rule rel_err_fl)
    have "rel_err (4 / 2 ^ 53) (h * t0) cw"
      by (rule rel_err_mono [OF rel_err_trans [OF r1 r2]]) simp_all
    moreover have "rel_err (4 / 2 ^ 53) h h" by (rule rel_err_mono [OF rel_err_refl]) simp
    moreover have "paddedSize (Fin w) (Fin h) (Fin t) = (Fin cw, Fin h)"
      using True by (simp add: paddedSize_def O js_gt_Fin M)
    moreover have "0 < h * t0" using h0 t0p by simp
    moreover have "h * t0 / h = t0" using h0 by simp
    moreover have "1 / 2 ^ 60 \<le> cw" "cw \<le> 2 ^ 90" "1 / 2 ^ 60 \<le> h" "h \<le> 2 ^ 90"
      by (rule range_weaken cwl cwu h)+
    ultimately show ?thesis using h0 by blast
  next
    case False
    define ch where "ch = fl (w / t)"
    have pl: "1 / 2 ^ 53 \<le> w / t"
    proof -
      have "1 / 2 ^ 53 \<le> 1 / t" using tu tp by (intro divide_left_mono) simp_all
      also have "\<dots> \<le> w / t" using w tp by (intro divide_right_mono) simp_all
      finally show ?thesis .
    qed
    have pu: "w / t \<le> 2 ^ 85"
    proof -
      have "w / t \<le> 2 ^ 32 / t" using w tp by (intro divide_right_mono) simp_all
      also have "\<dots> \<le> 2 ^ 32 / (1 / 2 ^ 53)" using tl tp by (intro divide_left_mono) simp_all
      finally show ?thesis by simp
    qed
    have "of_int 1 * 2 powi (- 53) \<le> w / t" using pl by (simp add: power_int_minus_divide)
    then have "of_int 1 * 2 powi (- 53) \<le> fl (w / t)" by (rule fl_dyadic_ge) simp_all
    then have chl: "1 / 2 ^ 53 \<le> ch" by (simp add: ch_def power_int_minus_divide)
    have "w / t \<le> of_int 1 * 2 powi 85" using pu by simp
    then have "fl (w / t) \<le> of_int 1 * 2 powi 85" by (rule fl_dyadic_le) simp_all
    then have chu: "ch \<le> 2 ^ 85" by (simp add: ch_def)
    then have "fl (w / t) < 2 ^ 1024" by (simp add: ch_def)
    with w0 tp have D: "js_div (Fin w) (Fin t) = Fin ch"
      unfolding ch_def by (intro js_div_pos) simp_all
    from t0p have "t0 \<noteq> 0" by simp
    from rel_err_inverse [OF rt _ _ this] have "rel_err (2 * (1 / 2 ^ 53)) (1 / t0) (1 / t)"
      by simp
    then have "rel_err (2 * (1 / 2 ^ 53)) (w * (1 / t0)) (w * (1 / t))"
      by (rule rel_err_mult_left)
    then have r1: "rel_err (2 * (1 / 2 ^ 53)) (w / t0) (w / t)" by simp
    have "1 / 2 ^ 200 \<le> w / t" using pl by (rule range_weaken)
    then have r2: "rel_err (1 / 2 ^ 53) (w / t) ch" unfolding ch_def by (rule rel_err_fl)
    have "rel_err (4 / 2 ^ 53) (w / t0) ch"
      by (rule rel_err_mono [OF rel_err_trans [OF r1 r2]]) simp_all
    moreover have "rel_err (4 / 2 ^ 53) w w" by (rule rel_err_mono [OF rel_err_refl]) simp
    moreover have "paddedSize (Fin w) (Fin h) (Fin t) = (Fin w, Fin ch)"
      using False by (simp add: paddedSize_def O js_gt_Fin D)
    moreover have "0 < w / t0" using w0 t0p by simp
    moreover have "w / (w / t0) = t0" using w0 t0p by simp
    moreover have "1 / 2 ^ 60 \<le> ch" "ch \<le> 2 ^ 90" "1 / 2 ^ 60 \<le> w" "w \<le> 2 ^ 90"
      by (rule range_weaken chl chu w)+
    ultimately show ?thesis using w0 by blast
  qed
  then show "\<exists>cw ch x0 y0.
           paddedSize (Fin w) (Fin h) (Fin (fl (a / b))) = (Fin cw, Fin ch)
           \<and> 1 / 2 ^ 60 \<le> cw \<and> cw \<le> 2 ^ 90 \<and> 1 / 2 ^ 60 \<le> ch \<and> ch \<le> 2 ^ 90
           \<and> 0 < x0 \<and> 0 < y0 \<and> x0 / y0 = a / b
           \<and> rel_err (4 / 2 ^ 53) x0 cw \<and> rel_err (4 / 2 ^ 53) y0 ch"
    by (simp add: t_def t0_def)
qed

text \<open>One side of the final canvas against the side of the scaled exact
  rectangle.\<close>

lemma final_side:
  assumes r0: "rel_err (4 / 2 ^ 53) x0 c" and x0: "0 < x0"
    and s: "0 < s" "s \<le> 1" "1 / 2 ^ 100 \<le> s"
    and c: "1 / 2 ^ 60 \<le> c"
    and p: "c * s \<le> 1024 * (1 + 1 / 2 ^ 53)"
  shows "\<exists>n. canvas_dimension d (js_round (js_mul (Fin c) (Fin s))) = n \<and> n \<le> 1024
           \<and> \<bar>of_nat n - x0 * s\<bar> \<le> 1 / 2 + 1 / 2 ^ 40"
proof -
  note sp = scaled_product [OF s c p]
  define v where "v = fl (c * s)"
  from sp have v: "js_mul (Fin c) (Fin s) = Fin v" "rel_err (1 / 2 ^ 53) (c * s) v"
    "0 \<le> v" "v \<le> 1024 + 1 / 4" by (simp_all add: v_def)
  note rs = rounded_side [OF v(3,4)]
  have r1: "rel_err (4 / 2 ^ 53) (x0 * s) (c * s)" using r0 by (rule rel_err_mult_right)
  from x0 s(1) have xs0: "0 \<le> x0 * s" by simp
  from rel_err_bounds(1) [OF r1 xs0] p have xb: "\<bar>x0 * s\<bar> \<le> 1026" using xs0 by simp
  have "rel_err (6 / 2 ^ 53) (x0 * s) v"
    by (rule rel_err_mono [OF rel_err_trans [OF r1 v(2)]]) simp_all
  from rel_err_abs [OF this xb] have "\<bar>v - x0 * s\<bar> \<le> 1 / 2 ^ 40" by simp
  with rs(3) have "\<bar>of_nat (nat \<lfloor>v + 1 / 2\<rfloor>) - x0 * s\<bar> \<le> 1 / 2 + 1 / 2 ^ 40" by linarith
  with rs(1) [of d] rs(2) show ?thesis by (simp add: v(1))
qed

text \<open>
  Claim C5, amended. The target ratio parses to two components between 1 and \<open>2^53\<close>,
  the image has positive sides below \<open>2^32\<close> and loads, a 2D context is available,
  and the test of line 43, as the code computes it in doubles, fails. Then the promise
  resolves with the encoding of a canvas whose sides are at most 1024 and within
  \<open>1/2 + 2^(-40)\<close> pixel of the sides \<open>x\<close> and \<open>y\<close> of a rectangle of ratio exactly
  \<open>a / b\<close>; the canvas is the one of lines 48 to 84.
\<close>

theorem resize_padded_dimensions:
  assumes "parseAspectRatio aspectRatio = Some (Fin a, Fin b)"
    and "1 \<le> a" and "a \<le> 2 ^ 53" and "1 \<le> b" and "b \<le> 2 ^ 53"
    and "decode env dataUrl = Some (imgWidth, imgHeight)"
    and "0 < imgWidth" and "imgWidth < 2 ^ 32"
    and "0 < imgHeight" and "imgHeight < 2 ^ 32"
    and "getContext env"
    and "\<not> withinTolerance (js_div (Fin a) (Fin b))
              (js_div (js_of_nat imgWidth) (js_of_nat imgHeight))"
  shows "\<exists>c x y.
           resizeImageToAspectRatio env dataUrl aspectRatio = Inr (toDataURL env c)
           \<and> c = paddedCanvas (js_of_nat imgWidth) (js_of_nat imgHeight) (js_div (Fin a) (Fin b))
           \<and> width c \<le> 1024 \<and> height c \<le> 1024
           \<and> 0 < x \<and> 0 < y \<and> x / y = a / b
           \<and> \<bar>of_nat (width c) - x\<bar> \<le> 1 / 2 + 1 / 2 ^ 40
           \<and> \<bar>of_nat (height c) - y\<bar> \<le> 1 / 2 + 1 / 2 ^ 40"
proof -
  let ?w = "of_nat imgWidth :: rat" and ?h = "of_nat imgHeight :: rat"
  have wb: "1 \<le> ?w" "?w \<le> 2 ^ 32"
  proof -
    from assms(7) have "1 \<le> imgWidth" by simp
    then show "1 \<le> ?w" by (metis of_nat_1 of_nat_le_iff)
    from assms(8) have "imgWidth \<le> 2 ^ 32" by simp
    then have "?w \<le> of_nat (2 ^ 32)" by (simp only: of_nat_le_iff)
    then show "?w \<le> 2 ^ 32" by simp
  qed
  have hb: "1 \<le> ?h" "?h \<le> 2 ^ 32"
  proof -
    from assms(9) have "1 \<le> imgHeight" by simp
    then show "1 \<le> ?h" by (metis of_nat_1 of_nat_le_iff)
    from assms(10) have "imgHeight \<le> 2 ^ 32" by simp
    then have "?h \<le> of_nat (2 ^ 32)" by (simp only: of_nat_le_iff)
    then show "?h \<le> 2 ^ 32" by simp
  qed
  note ps = paddedSize_double [OF assms(2,3,4,5) wb hb]
  from ps(2) obtain cw ch x0 y0 where
    PS: "paddedSize (Fin ?w) (Fin ?h) (Fin (fl (a / b))) = (Fin cw, Fin ch)"
    and cw: "1 / 2 ^ 60 \<le> cw" "cw \<le> 2 ^ 90" and ch: "1 / 2 ^ 60 \<le> ch" "ch \<le> 2 ^ 90"
    and xy: "0 < x0" "0 < y0" "x0 / y0 = a / b"
    and rel: "rel_err (4 / 2 ^ 53) x0 cw" "rel_err (4 / 2 ^ 53) y0 ch"
    by blast
  from scaleFor_double [OF cw ch] obtain s where
    S: "scaleFor (Fin cw) (Fin ch) = Fin s"
    and s: "0 < s" "s \<le> 1" "1 / 2 ^ 100 \<le> s"
    and p: "cw * s \<le> 1024 * (1 + 1 / 2 ^ 53)" "ch * s \<le> 1024 * (1 + 1 / 2 ^ 53)"
    by blast
  from final_side [OF rel(1) xy(1) s cw(1) p(1), of 300] obtain nw where
    nw: "canvas_dimension 300 (js_round (js_mul (Fin cw) (Fin s))) = nw" "nw \<le> 1024"
      "\<bar>of_nat nw - x0 * s\<bar> \<le> 1 / 2 + 1 / 2 ^ 40" by blast
  from final_side [OF rel(2) xy(2) s ch(1) p(2), of 150] obtain nh where
    nh: "canvas_dimension 150 (js_round (js_mul (Fin ch) (Fin s))) = nh" "nh \<le> 1024"
      "\<bar>of_nat nh - y0 * s\<bar> \<le> 1 / 2 + 1 / 2 ^ 40" by blast
  define c where "c = paddedCanvas (Fin ?w) (Fin ?h) (Fin (fl (a / b)))"
  have dims: "width c = nw" "height c = nh"
    by (simp_all add: c_def paddedCanvas_def Let_def PS S nw(1) nh(1))
  have res: "resizeImageToAspectRatio env dataUrl aspectRatio = Inr (toDataURL env c)"
    using assms(1,6,11,12)
    by (simp add: resizeImageToAspectRatio_def Let_def ps(1) js_of_nat_def c_def)
  from xy(1,2) s(1) have pos: "0 < x0 * s" "0 < y0 * s" by simp_all
  from s(1) xy(3) have ratio: "x0 * s / (y0 * s) = a / b" by simp
  show ?thesis
  proof (intro exI conjI)
    show "resizeImageToAspectRatio env dataUrl aspectRatio = Inr (toDataURL env c)" by (rule res)
    show "c = paddedCanvas (js_of_nat imgWidth) (js_of_nat imgHeight) (js_div (Fin a) (Fin b))"
      by (simp only: c_def js_of_nat_def ps(1))
    show "width c \<le> 1024" "height c \<le> 1024" using nw(2) nh(2) by (simp_all add: dims)
    show "0 < x0 * s" "0 < y0 * s" by (rule pos)+
    show "x0 * s / (y0 * s) = a / b" by (rule ratio)
    show "\<bar>of_nat (width c) - x0 * s\<bar> \<le> 1 / 2 + 1 / 2 ^ 40" using nw(3) by (simp only: dims)
    show "\<bar>of_nat (height c) - y0 * s\<bar> \<le> 1 / 2 + 1 / 2 ^ 40" using nh(3) by (simp only: dims)
  qed
qed

text \<open>An image of 600 by 800 pixels and the ratio \<^verbatim>\<open>16:9\<close>: the canvas is 1024 by
  576.\<close>

lemma fl_16_9: "fl (16 / 9) = 2001599834386887 / 1125899906842624"
  using fl_eq [of "0" "16 / 9" "8006399337547548"] by simp

lemma fl_diff_16_9: "fl (1157174904254919 / 1125899906842624) = 1157174904254919 / 1125899906842624"
  using fl_eq [of "0" "1157174904254919 / 1125899906842624" "4628699617019676"] by simp

lemma fl_cw_16_9: "fl (50039995859672175 / 35184372088832) = 3127499741229511 / 2199023255552"
  using fl_eq [of "10" "50039995859672175 / 35184372088832" "6254999482459022"] by simp

lemma fl_scale_16_9: "fl (2251799813685248 / 3127499741229511) = 3242591731706757 / 4503599627370496"
  using fl_eq [of "- 1" "2251799813685248 / 3127499741229511" "6485183463413514"] by simp

lemma fl_w_16_9: "fl (10141204801825834476385686505827 / 9903520314283042199192993792) = 9007199254740991 / 8796093022208"
  using fl_eq [of "9" "10141204801825834476385686505827 / 9903520314283042199192993792" "9007199254740991"] by simp

lemma fl_h_16_9: "fl (81064793292668925 / 140737488355328) = 576"
  using fl_eq [of "9" "81064793292668925 / 140737488355328" "5066549580791808"] by simp

lemma fl_201_100: "fl (201 / 100) = 1131529406376837 / 562949953421312"
  using fl_eq [of "1" "201 / 100" "4526117625507348"] by simp

lemma fl_knife_diff: "fl (5629499534213 / 562949953421312) = 5629499534213 / 562949953421312"
  using fl_eq [of "- 7" "5629499534213 / 562949953421312" "5764607523034112"] by simp

lemma fl_tolerance: "fl (1 / 100) = 5764607523034235 / 576460752303423488"
  using fl_eq [of "- 7" "1 / 100" "5764607523034235"] by simp


lemma jsNumber_201_100: "jsNumber ''201'' = Fin 201" "jsNumber ''100'' = Fin 100"
  by (simp_all add: jsNumber_def trim_def is_ws_def unsigned_decimal_def is_digit_def
      digit_of_def exponent_part_def double_of_numeral)

lemma parse_201_100: "parseAspectRatio ''201:100'' = Some (Fin 201, Fin 100)"
  by (simp add: parseAspectRatio_def jsNumber_201_100 isNaN_def js_strict_eq_def is_zero_def)

lemma within_201_100:
  "withinTolerance (js_div (Fin 201) (Fin 100)) (js_div (js_of_nat 2000) (js_of_nat 1000))"
proof -
  have "fl 2 = 2" using fl_int [of 2] by simp
  then have o: "js_div (Fin 2000) (Fin 1000) = Fin 2" by (simp add: js_div_pos)
  have t: "js_div (Fin 201) (Fin 100) = Fin (1131529406376837 / 562949953421312)"
    by (simp add: js_div_pos fl_201_100)
  have s: "js_sub (Fin (1131529406376837 / 562949953421312)) (Fin 2) = Fin (5629499534213 / 562949953421312)"
    by (simp add: js_sub_less fl_knife_diff)
  show ?thesis
    by (simp add: withinTolerance_def js_of_nat_def o t s js_abs_Fin double_of_nonneg
        fl_tolerance js_lt_Fin)
qed


lemma ratio_16_9: "js_div (Fin 16) (Fin 9) = Fin (2001599834386887 / 1125899906842624)"
  by (simp add: js_div_pos fl_16_9)

lemma ratio_600_800: "js_div (js_of_nat 600) (js_of_nat 800) = Fin (3 / 4)"
proof -
  have "fl (3 / 4) = of_int 3 * 2 powi (- 2)" using fl_repr [of 3 "- 2"] by simp
  then have "fl (3 / 4) = 3 / 4" by simp
  then show ?thesis by (simp add: js_of_nat_def js_div_pos)
qed

lemma outside_16_9:
  "\<not> withinTolerance (js_div (Fin 16) (Fin 9)) (js_div (js_of_nat 600) (js_of_nat 800))"
  by (simp add: ratio_16_9 ratio_600_800 withinTolerance_def js_sub_less fl_diff_16_9
      js_abs_Fin double_of_nonneg fl_tolerance js_lt_Fin)

lemma paddedCanvas_16_9:
  "width (paddedCanvas (Fin 600) (Fin 800) (Fin (2001599834386887 / 1125899906842624))) = 1024"
  "height (paddedCanvas (Fin 600) (Fin 800) (Fin (2001599834386887 / 1125899906842624))) = 576"
proof -
  have o: "js_div (Fin 600) (Fin 800) = Fin (3 / 4)"
    using ratio_600_800 by (simp add: js_of_nat_def)
  have ps: "paddedSize (Fin 600) (Fin 800) (Fin (2001599834386887 / 1125899906842624)) = (Fin (3127499741229511 / 2199023255552), Fin 800)"
    by (simp add: paddedSize_def o js_gt_Fin js_mul_nonneg fl_cw_16_9)
  have sc: "scaleFor (Fin (3127499741229511 / 2199023255552)) (Fin 800) = Fin (3242591731706757 / 4503599627370496)"
    by (simp add: scaleFor_def MAX_DIMENSION_def js_gt_Fin js_div_pos fl_scale_16_9)
  have m: "js_mul (Fin (3127499741229511 / 2199023255552)) (Fin (3242591731706757 / 4503599627370496)) = Fin (9007199254740991 / 8796093022208)"
    "js_mul (Fin 800) (Fin (3242591731706757 / 4503599627370496)) = Fin (576)"
    by (simp_all add: js_mul_nonneg fl_w_16_9 fl_h_16_9)
  have f: "\<lfloor>9007199254740991 / 8796093022208 + 1 / 2 :: rat\<rfloor> = 1024" "\<lfloor>576 + 1 / 2 :: rat\<rfloor> = 576"
    by (rule floor_unique, simp, simp)+
  have r: "js_round (Fin (9007199254740991 / 8796093022208)) = Fin 1024" "js_round (Fin (576)) = Fin 576"
    using f by (simp_all add: js_round_def Let_def)
  have dims: "canvas_dimension 300 (Fin 1024) = 1024" "canvas_dimension 150 (Fin 576) = 576"
    using canvas_dimension_int [of 1024 300] canvas_dimension_int [of 576 150] by simp_all
  show "width (paddedCanvas (Fin 600) (Fin 800) (Fin (2001599834386887 / 1125899906842624))) = 1024"
    "height (paddedCanvas (Fin 600) (Fin 800) (Fin (2001599834386887 / 1125899906842624))) = 576"
    by (simp_all add: paddedCanvas_def Let_def ps sc m r dims)
qed

theorem resize_padded_dimensions_witness:
  "parseAspectRatio ''16:9'' = Some (Fin 16, Fin 9)
   \<and> (1::rat) \<le> 16 \<and> (16::rat) \<le> 2 ^ 53 \<and> (1::rat) \<le> 9 \<and> (9::rat) \<le> 2 ^ 53
   \<and> decode testBrowser ''data:photo'' = Some (600, 800)
   \<and> (0::nat) < 600 \<and> (600::nat) < 2 ^ 32 \<and> (0::nat) < 800 \<and> (800::nat) < 2 ^ 32
   \<and> getContext testBrowser
   \<and> \<not> withinTolerance (js_div (Fin 16) (Fin 9)) (js_div (js_of_nat 600) (js_of_nat 800))
   \<and> (\<exists>c (x::rat) y.
         resizeImageToAspectRatio testBrowser ''data:photo'' ''16:9''
           = Inr (toDataURL testBrowser c)
         \<and> c = paddedCanvas (js_of_nat 600) (js_of_nat 800) (js_div (Fin 16) (Fin 9))
         \<and> width c \<le> 1024 \<and> height c \<le> 1024
         \<and> 0 < x \<and> 0 < y \<and> x / y = 16 / 9
         \<and> \<bar>of_nat (width c) - x\<bar> \<le> 1 / 2 + 1 / 2 ^ 40
         \<and> \<bar>of_nat (height c) - y\<bar> \<le> 1 / 2 + 1 / 2 ^ 40)
   \<and> js_div (Fin 16) (Fin 9) = Fin (2001599834386887 / 1125899906842624)
   \<and> width (paddedCanvas (Fin 600) (Fin 800) (Fin (2001599834386887 / 1125899906842624))) = 1024
   \<and> height (paddedCanvas (Fin 600) (Fin 800) (Fin (2001599834386887 / 1125899906842624))) = 576"
proof -
  have h2: "(1::rat) \<le> 16" and h3: "(16::rat) \<le> 2 ^ 53"
    and h4: "(1::rat) \<le> 9" and h5: "(9::rat) \<le> 2 ^ 53" by simp_all
  have h6: "decode testBrowser ''data:photo'' = Some (600, 800)" by (simp add: testBrowser_def)
  have h7: "(0::nat) < 600" and h8: "(600::nat) < 2 ^ 32"
    and h9: "(0::nat) < 800" and h10: "(800::nat) < 2 ^ 32" by simp_all
  have h11: "getContext testBrowser" by (simp add: testBrowser_def)
  note t = resize_padded_dimensions [OF parse_16_9 h2 h3 h4 h5 h6 h7 h8 h9 h10 h11 outside_16_9]
  show ?thesis
    by (intro conjI)
      (rule parse_16_9 h2 h3 h4 h5 h6 h7 h8 h9 h10 h11 outside_16_9 t ratio_16_9
        paddedCanvas_16_9)+
qed

text \<open>
  Claim C5 as stated fails where the rounding of the tolerance test decides. For an
  image of 2000 by 1000 pixels and the ratio \<^verbatim>\<open>201:100\<close> the two ratios differ by
  exactly 0.01, which is not less than 0.01; but \<^verbatim>\<open>201 / 100\<close> is rounded down to a
  double, the computed difference is below the double nearest to 0.01, and the promise
  resolves with the input itself: 2000 pixels wide, of ratio 2.
\<close>

theorem resize_unchanged_at_tolerance:
  "parseAspectRatio ''201:100'' = Some (Fin 201, Fin 100)
   \<and> decode (testBrowser\<lparr>decode := \<lambda>src. Some (2000, 1000)\<rparr>) ''data:photo'' = Some (2000, 1000)
   \<and> \<bar>(201::rat) / 100 - 2000 / 1000\<bar> = 1 / 100
   \<and> withinTolerance (js_div (Fin 201) (Fin 100)) (js_div (js_of_nat 2000) (js_of_nat 1000))
   \<and> resizeImageToAspectRatio (testBrowser\<lparr>decode := \<lambda>src. Some (2000, 1000)\<rparr>)
         ''data:photo'' ''201:100'' = Inr ''data:photo''
   \<and> (1024::nat) < 2000"
  by (simp add: parse_201_100 within_201_100 resizeImageToAspectRatio_def testBrowser_def)
section \<open>Properties of the centred crop\<close>

text \<open>The subtraction and halving that give an offset, for a crop side that is at most
  the image side.\<close>

lemma sub_half_nonneg:
  assumes "y \<le> x" "x \<le> 2147483648" "0 \<le> y"
  shows "\<exists>D c. js_sub (Fin x) (Fin y) = Fin D \<and> js_div (Fin D) (Fin 2) = Fin c \<and> 0 \<le> c
           \<and> \<bar>c - (x - (c + y))\<bar> \<le> 3 * (2147483648 / 2 ^ 53)"
proof -
  define u :: rat where "u = 2147483648 / 2 ^ 53"
  have B: "(2::rat) powi (- 1022) \<le> 2147483648"
  proof -
    have "(2::rat) powi (- 1022) \<le> 2 powi 0" by (rule p2_mono) simp
    then show ?thesis by simp
  qed
  define D where "D = fl (x - y)"
  define c where "c = fl (D / 2)"
  have D0: "0 \<le> D" unfolding D_def using assms(1) by (intro fl_nonneg) simp
  have "x - y \<le> of_int 2147483648" using assms by simp
  then have "fl (x - y) \<le> of_int 2147483648" by (rule fl_int_le) simp
  then have Db: "D \<le> 2147483648" by (simp add: D_def)
  have S: "js_sub (Fin x) (Fin y) = Fin D"
  proof (cases "x = y")
    case True
    then show ?thesis by (simp add: js_sub_Fin D_def)
  next
    case False
    with assms(1) have "y < x" by simp
    moreover from Db have "fl (x - y) < 2 ^ 1024" by (simp add: D_def)
    ultimately show ?thesis unfolding D_def by (rule js_sub_less)
  qed
  have c0: "0 \<le> c" unfolding c_def using D0 by (intro fl_nonneg) simp
  have "D / 2 \<le> of_int 2147483648" using Db D0 by simp
  then have "fl (D / 2) \<le> of_int 2147483648" by (rule fl_int_le) simp
  then have "fl (D / 2) < 2 ^ 1024" by simp
  with D0 have X: "js_div (Fin D) (Fin 2) = Fin c" unfolding c_def by (intro js_div_pos) simp_all
  have e2: "\<bar>D - (x - y)\<bar> \<le> u"
    unfolding D_def u_def using assms by (intro fl_abs_err B) simp
  have e3: "\<bar>c - D / 2\<bar> \<le> u"
    unfolding c_def u_def using D0 Db by (intro fl_abs_err B) simp
  from e2 e3 have "\<bar>c - (x - (c + y))\<bar> \<le> 3 * u" by linarith
  with S X c0 show ?thesis unfolding u_def by blast
qed

lemma cropRect_double:
  fixes w h r :: rat
  assumes w: "w = of_int iw" "1 \<le> iw" "iw \<le> 2147483647"
    and h: "h = of_int ih" "1 \<le> ih" "ih \<le> 2147483647"
    and r: "0 < r" "fl r = r" "r < 2 ^ 1024"
  shows "\<exists>cropX cropY cropW cropH.
      cropRect (Fin w) (Fin h) (Fin r) = (Fin cropX, Fin cropY, Fin cropW, Fin cropH)
    \<and> 0 < cropW \<and> 0 < cropH \<and> cropW < 2147483648 \<and> cropH < 2147483648
    \<and> (cropH = h \<and> cropY = 0 \<and> \<bar>cropW - h * r\<bar> \<le> 1 / 2 ^ 20 \<and> cropW \<le> w \<and> 0 \<le> cropX
         \<and> \<bar>cropX - (w - (cropX + cropW))\<bar> \<le> 1 / 2 ^ 20
       \<or> cropW = w \<and> cropX = 0 \<and> \<bar>cropH - w / r\<bar> \<le> 1 / 2 ^ 20
         \<and> cropH \<le> h + 1 / 2 ^ 20 \<and> - (1 / 2 ^ 20) \<le> cropY
         \<and> \<bar>cropY - (h - (cropY + cropH))\<bar> \<le> 1 / 2 ^ 20)"
proof -
  define u :: rat where "u = 2147483648 / 2 ^ 53"
  have u: "0 \<le> u" "3 * u \<le> 1 / 2 ^ 20" "u \<le> 1 / 2 ^ 22" by (simp_all add: u_def)
  have B: "(2::rat) powi (- 1022) \<le> 2147483648"
  proof -
    have "(2::rat) powi (- 1022) \<le> 2 powi 0" by (rule p2_mono) simp
    then show ?thesis by simp
  qed
  from w have wb: "1 \<le> w" "w \<le> 2147483647" by simp_all
  from h have hb: "1 \<le> h" "h \<le> 2147483647" by simp_all
  define orat where "orat = fl (w / h)"
  have "w / h \<le> w" using wb hb by (simp add: field_simps)
  with wb have qb: "w / h \<le> of_int 2147483647" by simp
  then have "fl (w / h) \<le> of_int 2147483647" by (rule fl_int_le) simp
  then have "fl (w / h) < 2 ^ 1024" by simp
  with wb hb have O: "js_div (Fin w) (Fin h) = Fin orat" unfolding orat_def by (intro js_div_pos) simp_all
  show ?thesis
  proof (cases "r < orat")
    case True
    have rle: "r \<le> w / h"
    proof (rule ccontr)
      assume "\<not> r \<le> w / h"
      then have "w / h \<le> r" by simp
      then have "fl (w / h) \<le> fl r" by (rule fl_mono)
      with True r(2) show False by (simp add: orat_def)
    qed
    with hb have hr: "h * r \<le> w" by (simp add: field_simps)
    define cw where "cw = fl (h * r)"
    have "h * r \<le> of_int iw" using hr by (simp add: w(1))
    then have "fl (h * r) \<le> of_int iw" using w(2,3) by (intro fl_int_le) simp_all
    then have cww: "cw \<le> w" by (simp add: cw_def w(1))
    have "r \<le> h * r" using hb r(1) by simp
    then have "fl r \<le> fl (h * r)" by (rule fl_mono)
    with r have cw0: "0 < cw" by (simp add: cw_def)
    have M: "js_mul (Fin h) (Fin r) = Fin cw"
      unfolding cw_def using hb r(1) cww wb by (intro js_mul_nonneg) (simp_all add: cw_def)
    have e1: "\<bar>cw - h * r\<bar> \<le> u"
      unfolding cw_def u_def using hr wb hb r(1) by (intro fl_abs_err B) simp
    from sub_half_nonneg [of cw w] cww wb cw0 obtain D cx where
      c: "js_sub (Fin w) (Fin cw) = Fin D" "js_div (Fin D) (Fin 2) = Fin cx" "0 \<le> cx"
        "\<bar>cx - (w - (cx + cw))\<bar> \<le> 3 * u"
      unfolding u_def by auto
    have R: "cropRect (Fin w) (Fin h) (Fin r) = (Fin cx, Fin 0, Fin cw, Fin h)"
      using True by (simp add: cropRect_def Let_def O js_gt_Fin M c(1,2))
    from e1 u have e1': "\<bar>cw - h * r\<bar> \<le> 1 / 2 ^ 20" by linarith
    from c(4) u have c4': "\<bar>cx - (w - (cx + cw))\<bar> \<le> 1 / 2 ^ 20" by linarith
    from cww wb have cwlt: "cw < 2147483648" by linarith
    from hb have hlt: "0 < h" "h < 2147483648" by linarith+
    show ?thesis
      using R cw0 hlt cwlt e1' cww c(3) c4' by blast
  next
    case False
    then have orr: "orat \<le> r" by simp
    have "2 powi (- 1022) \<le> w / h"
    proof -
      have "(2::rat) powi (- 1022) \<le> 2 powi (- 31)" by (rule p2_mono) simp
      also have "\<dots> \<le> 1 / h" using hb by (simp add: field_simps)
      also have "\<dots> \<le> w / h" using wb hb by (simp add: divide_right_mono)
      finally show ?thesis .
    qed
    from fl_bounds(1) [OF this] orr have "w / h * (1 - 1 / 2 ^ 53) \<le> r" by (simp add: orat_def)
    then have "w / h * (1 - 1 / 2 ^ 53) * (h / r) \<le> r * (h / r)"
      using hb r(1) by (intro mult_right_mono) simp_all
    then have ql: "w / r * (1 - 1 / 2 ^ 53) \<le> h" using hb r(1) by simp
    define q where "q = w / r"
    from ql hb have qh: "q \<le> h + 1 / 2 ^ 21" by (simp add: q_def)
    have q0: "0 < q" using wb r(1) by (simp add: q_def)
    define ch where "ch = fl q"
    have qB: "\<bar>q\<bar> \<le> 2147483648" using qh hb q0 by simp
    have e4: "\<bar>ch - q\<bar> \<le> u" unfolding ch_def u_def using qB by (intro fl_abs_err B)
    with qh u have chh: "ch \<le> h + 1 / 2 ^ 20" by simp
    with hb have chlt: "ch < 2147483648" by simp
    have "2 powi (- 1074) \<le> q"
    proof -
      have "(2::rat) powi (- 1074) \<le> 2 powi (- 1024)" by (rule p2_mono) simp
      also have "\<dots> = 1 / 2 ^ 1024" by (simp add: power_int_minus_divide)
      also have "\<dots> \<le> 1 / r" using r(1,3) by (intro divide_left_mono) simp_all
      also have "\<dots> \<le> w / r" using wb r(1) by (simp add: divide_right_mono)
      finally show ?thesis by (simp add: q_def)
    qed
    then have ch0: "0 < ch" unfolding ch_def by (rule fl_pos)
    have Dv: "js_div (Fin w) (Fin r) = Fin ch"
      unfolding ch_def q_def using wb r(1) chlt by (intro js_div_pos) (simp_all add: ch_def q_def)
    from e4 u have e4': "\<bar>ch - w / r\<bar> \<le> 1 / 2 ^ 20" by (simp add: q_def)
    have "\<exists>cy. js_div (js_sub (Fin h) (Fin ch)) (Fin 2) = Fin cy \<and> - (1 / 2 ^ 20) \<le> cy
            \<and> \<bar>cy - (h - (cy + ch))\<bar> \<le> 1 / 2 ^ 20"
    proof (cases "ch \<le> h")
      case True
      from sub_half_nonneg [of ch h] True hb ch0 obtain D cy where
        c: "js_sub (Fin h) (Fin ch) = Fin D" "js_div (Fin D) (Fin 2) = Fin cy" "0 \<le> cy"
          "\<bar>cy - (h - (cy + ch))\<bar> \<le> 3 * u"
        unfolding u_def by auto
      from c(4) u have "\<bar>cy - (h - (cy + ch))\<bar> \<le> 1 / 2 ^ 20" by linarith
      with c show ?thesis by auto
    next
      case False
      then have lt: "h < ch" by simp
      have fch: "fl ch = ch" by (simp add: ch_def fl_idem)
      from lt hb have ch1: "1 \<le> ch" by linarith
      from lt have n1: "of_int ih < ch" by (simp add: h(1))
      from chh have n2: "ch - of_int ih \<le> 1" by (simp add: h(1))
      note ex = sub_half_exact [OF fch ch1 n1 n2, folded h(1)]
      define d where "d = h - ch"
      from lt have dneg: "d < 0" by (simp add: d_def)
      from chh have dlow: "- (1 / 2 ^ 20) \<le> d" by (simp add: d_def)
      have "js_sub (Fin h) (Fin ch) = double_of True d"
        using lt by (simp add: js_sub_Fin d_def)
      also have "\<dots> = Fin d"
        using ex(1) dneg dlow by (simp add: double_of_def d_def [symmetric] signed_fin_def)
      finally have S: "js_sub (Fin h) (Fin ch) = Fin d" .
      have "js_div (Fin d) (Fin 2) = double_of True (d / 2)"
        using dneg by (simp add: js_div_Fin)
      also have "\<dots> = Fin (d / 2)"
        using ex(2) dneg dlow by (simp add: double_of_def d_def [symmetric] signed_fin_def)
      finally have X: "js_div (js_sub (Fin h) (Fin ch)) (Fin 2) = Fin (d / 2)" by (simp add: S)
      have "- (1 / 2 ^ 20) \<le> d / 2" using dlow dneg by simp
      moreover have "\<bar>d / 2 - (h - (d / 2 + ch))\<bar> \<le> 1 / 2 ^ 20" by (simp add: d_def)
      ultimately show ?thesis using X by blast
    qed
    then obtain cy where cy: "js_div (js_sub (Fin h) (Fin ch)) (Fin 2) = Fin cy"
      "- (1 / 2 ^ 20) \<le> cy" "\<bar>cy - (h - (cy + ch))\<bar> \<le> 1 / 2 ^ 20" by blast
    have R: "cropRect (Fin w) (Fin h) (Fin r) = (Fin 0, Fin cy, Fin w, Fin ch)"
      using False by (simp add: cropRect_def Let_def O js_gt_Fin Dv cy(1))
    from wb have wlt: "0 < w" "w < 2147483648" by linarith+
    show ?thesis
      using R wlt ch0 chlt e4' chh cy(2,3) by blast
  qed
qed

text \<open>
  Claim C6. For an image with positive sides (below \<open>2^31\<close>) that loads, a 2D context
  and a target ratio \<open>r\<close> that is a positive finite double,
  \<^verbatim>\<open>cropImageToAspectRatio\<close> resolves with the encoding of a canvas holding one
  \<^verbatim>\<open>drawImage\<close> call whose source rectangle has the size of its destination: nothing
  is scaled. The canvas sides are the sides of that rectangle truncated to integers.
  Either the height is the image's and the width is \<open>origHeight * r\<close> rounded to a
  double, at most the image's width; or the width is the image's and the height is
  \<open>origWidth / r\<close> rounded to a double. On the cropped axis the two margins differ by
  at most \<open>2^(-20)\<close> pixel. In the second case the rounded height can exceed the image's
  by a rounding error, and then the offset is negative by half of it.
\<close>

theorem crop_centered:
  assumes "decode env dataUrl = Some (imgWidth, imgHeight)"
    and "getContext env"
    and "0 < imgWidth" and "imgWidth \<le> 2147483647"
    and "0 < imgHeight" and "imgHeight \<le> 2147483647"
    and "0 < r" and "fl r = r" and "r < 2 ^ 1024"
  shows "\<exists>c cropX cropY cropWidth cropHeight.
           cropImageToAspectRatio env dataUrl (Fin r) = Inr (toDataURL env c)
           \<and> ops c = [DrawImage (Some (Fin cropX, Fin cropY, Fin cropWidth, Fin cropHeight))
                        (Fin 0, Fin 0, Fin cropWidth, Fin cropHeight)]
           \<and> width c = nat \<lfloor>cropWidth\<rfloor> \<and> height c = nat \<lfloor>cropHeight\<rfloor>
           \<and> 0 < cropWidth \<and> 0 < cropHeight
           \<and> (cropHeight = of_nat imgHeight \<and> cropY = 0
                 \<and> \<bar>cropWidth - of_nat imgHeight * r\<bar> \<le> 1 / 2 ^ 20
                 \<and> cropWidth \<le> of_nat imgWidth \<and> 0 \<le> cropX
                 \<and> \<bar>cropX - (of_nat imgWidth - (cropX + cropWidth))\<bar> \<le> 1 / 2 ^ 20
               \<or> cropWidth = of_nat imgWidth \<and> cropX = 0
                 \<and> \<bar>cropHeight - of_nat imgWidth / r\<bar> \<le> 1 / 2 ^ 20
                 \<and> cropHeight \<le> of_nat imgHeight + 1 / 2 ^ 20 \<and> - (1 / 2 ^ 20) \<le> cropY
                 \<and> \<bar>cropY - (of_nat imgHeight - (cropY + cropHeight))\<bar> \<le> 1 / 2 ^ 20)"
proof -
  let ?w = "of_nat imgWidth :: rat" and ?h = "of_nat imgHeight :: rat"
  have w: "?w = of_int (int imgWidth)" "1 \<le> int imgWidth" "int imgWidth \<le> 2147483647"
    using assms(3,4) by simp_all
  have h: "?h = of_int (int imgHeight)" "1 \<le> int imgHeight" "int imgHeight \<le> 2147483647"
    using assms(5,6) by simp_all
  from cropRect_double [OF w h assms(7,8,9)] obtain cx cy cw ch where
    R: "cropRect (Fin ?w) (Fin ?h) (Fin r) = (Fin cx, Fin cy, Fin cw, Fin ch)"
    and pos: "0 < cw" "0 < ch" "cw < 2147483648" "ch < 2147483648"
    and sh: "ch = ?h \<and> cy = 0 \<and> \<bar>cw - ?h * r\<bar> \<le> 1 / 2 ^ 20 \<and> cw \<le> ?w \<and> 0 \<le> cx
         \<and> \<bar>cx - (?w - (cx + cw))\<bar> \<le> 1 / 2 ^ 20
       \<or> cw = ?w \<and> cx = 0 \<and> \<bar>ch - ?w / r\<bar> \<le> 1 / 2 ^ 20
         \<and> ch \<le> ?h + 1 / 2 ^ 20 \<and> - (1 / 2 ^ 20) \<le> cy
         \<and> \<bar>cy - (?h - (cy + ch))\<bar> \<le> 1 / 2 ^ 20"
    by blast
  let ?c = "\<lparr>width = nat \<lfloor>cw\<rfloor>, height = nat \<lfloor>ch\<rfloor>,
      ops = [DrawImage (Some (Fin cx, Fin cy, Fin cw, Fin ch)) (Fin 0, Fin 0, Fin cw, Fin ch)]\<rparr>"
  from pos have dims: "canvas_dimension 300 (Fin cw) = nat \<lfloor>cw\<rfloor>"
    "canvas_dimension 150 (Fin ch) = nat \<lfloor>ch\<rfloor>"
    by (simp_all add: canvas_dimension_frac)
  have res: "cropImageToAspectRatio env dataUrl (Fin r) = Inr (toDataURL env ?c)"
    using assms(1,2) by (simp add: cropImageToAspectRatio_def croppedCanvas_def js_of_nat_def R dims)
  show ?thesis
  proof (intro exI conjI)
    show "cropImageToAspectRatio env dataUrl (Fin r) = Inr (toDataURL env ?c)" by (rule res)
    show "ops ?c = [DrawImage (Some (Fin cx, Fin cy, Fin cw, Fin ch)) (Fin 0, Fin 0, Fin cw, Fin ch)]"
      by simp
    show "width ?c = nat \<lfloor>cw\<rfloor>" "height ?c = nat \<lfloor>ch\<rfloor>" by simp_all
    show "0 < cw" "0 < ch" by (rule pos)+
    show "ch = ?h \<and> cy = 0 \<and> \<bar>cw - ?h * r\<bar> \<le> 1 / 2 ^ 20 \<and> cw \<le> ?w \<and> 0 \<le> cx
         \<and> \<bar>cx - (?w - (cx + cw))\<bar> \<le> 1 / 2 ^ 20
       \<or> cw = ?w \<and> cx = 0 \<and> \<bar>ch - ?w / r\<bar> \<le> 1 / 2 ^ 20
         \<and> ch \<le> ?h + 1 / 2 ^ 20 \<and> - (1 / 2 ^ 20) \<le> cy
         \<and> \<bar>cy - (?h - (cy + ch))\<bar> \<le> 1 / 2 ^ 20" by (rule sh)
  qed
qed

text \<open>An image of 400 by 600 pixels and the ratio \<^verbatim>\<open>4 / 6\<close> of the print size 4x6: the
  image's own ratio is the same double, the height is cropped by nothing, and the canvas
  is 400 by 600.\<close>

lemma fl_4_6: "fl (2 / 3) = 6004799503160661 / 9007199254740992"
  using fl_eq [of "- 1" "2 / 3" "6004799503160661"] by simp

lemma fl_400_r: "fl (3602879701896396800 / 6004799503160661) = 600"
  using fl_eq [of "9" "3602879701896396800 / 6004799503160661" "5277655813324800"] by simp

lemma ratio_4_6: "js_div (Fin 4) (Fin 6) = Fin (6004799503160661 / 9007199254740992)"
  by (simp add: js_div_pos fl_4_6)

lemma croppedCanvas_400_600:
  "croppedCanvas (Fin 400) (Fin 600) (Fin (6004799503160661 / 9007199254740992))
     = \<lparr>width = 400, height = 600,
        ops = [DrawImage (Some (Fin 0, Fin 0, Fin 400, Fin 600)) (Fin 0, Fin 0, Fin 400, Fin 600)]\<rparr>"
proof -
  have dims: "canvas_dimension 300 (Fin 400) = 400" "canvas_dimension 150 (Fin 600) = 600"
    using canvas_dimension_int [of 400 300] canvas_dimension_int [of 600 150] by simp_all
  have "cropRect (Fin 400) (Fin 600) (Fin (6004799503160661 / 9007199254740992)) = (Fin 0, Fin 0, Fin 400, Fin 600)"
    by (simp add: cropRect_def Let_def js_div_pos fl_4_6 js_gt_Fin fl_400_r js_sub_Fin)
  then show ?thesis by (simp add: croppedCanvas_def dims)
qed

theorem crop_centered_witness:
  "decode (testBrowser\<lparr>decode := \<lambda>src. Some (400, 600)\<rparr>) ''data:photo'' = Some (400, 600)
   \<and> getContext (testBrowser\<lparr>decode := \<lambda>src. Some (400, 600)\<rparr>)
   \<and> (0::nat) < 400 \<and> (400::nat) \<le> 2147483647 \<and> (0::nat) < 600 \<and> (600::nat) \<le> 2147483647
   \<and> (0::rat) < 6004799503160661 / 9007199254740992
   \<and> fl (6004799503160661 / 9007199254740992) = 6004799503160661 / 9007199254740992
   \<and> (6004799503160661 / 9007199254740992 :: rat) < 2 ^ 1024
   \<and> js_div (Fin 4) (Fin 6) = Fin (6004799503160661 / 9007199254740992)
   \<and> (\<exists>c cropX cropY cropWidth cropHeight.
         cropImageToAspectRatio (testBrowser\<lparr>decode := \<lambda>src. Some (400, 600)\<rparr>) ''data:photo''
             (Fin (6004799503160661 / 9007199254740992))
           = Inr (toDataURL (testBrowser\<lparr>decode := \<lambda>src. Some (400, 600)\<rparr>) c)
         \<and> ops c = [DrawImage (Some (Fin cropX, Fin cropY, Fin cropWidth, Fin cropHeight))
                      (Fin 0, Fin 0, Fin cropWidth, Fin cropHeight)]
         \<and> width c = nat \<lfloor>cropWidth\<rfloor> \<and> height c = nat \<lfloor>cropHeight\<rfloor>
         \<and> 0 < cropWidth \<and> 0 < cropHeight
         \<and> (cropHeight = of_nat 600 \<and> cropY = 0
               \<and> \<bar>cropWidth - of_nat 600 * (6004799503160661 / 9007199254740992)\<bar> \<le> 1 / 2 ^ 20
               \<and> cropWidth \<le> of_nat 400 \<and> 0 \<le> cropX
               \<and> \<bar>cropX - (of_nat 400 - (cropX + cropWidth))\<bar> \<le> 1 / 2 ^ 20
             \<or> cropWidth = of_nat 400 \<and> cropX = 0
               \<and> \<bar>cropHeight - of_nat 400 / (6004799503160661 / 9007199254740992)\<bar> \<le> 1 / 2 ^ 20
               \<and> cropHeight \<le> of_nat 600 + 1 / 2 ^ 20 \<and> - (1 / 2 ^ 20) \<le> cropY
               \<and> \<bar>cropY - (of_nat 600 - (cropY + cropHeight))\<bar> \<le> 1 / 2 ^ 20))
   \<and> croppedCanvas (Fin 400) (Fin 600) (Fin (6004799503160661 / 9007199254740992))
       = \<lparr>width = 400, height = 600,
          ops = [DrawImage (Some (Fin 0, Fin 0, Fin 400, Fin 600))
                   (Fin 0, Fin 0, Fin 400, Fin 600)]\<rparr>"
proof -
  let ?env = "testBrowser\<lparr>decode := \<lambda>src. Some (400, 600)\<rparr>"
  have h1: "decode ?env ''data:photo'' = Some (400, 600)" by simp
  have h2: "getContext ?env" by (simp add: testBrowser_def)
  have h3: "(0::nat) < 400" and h4: "(400::nat) \<le> 2147483647"
    and h5: "(0::nat) < 600" and h6: "(600::nat) \<le> 2147483647" by simp_all
  have h7: "(0::rat) < 6004799503160661 / 9007199254740992" by simp
  have h8: "fl (6004799503160661 / 9007199254740992) = 6004799503160661 / 9007199254740992"
    using fl_idem [of "2 / 3"] by (simp add: fl_4_6)
  have h9: "(6004799503160661 / 9007199254740992 :: rat) < 2 ^ 1024" by simp
  note t = crop_centered [OF h1 h2 h3 h4 h5 h6 h7 h8 h9]
  show ?thesis
    by (intro conjI) (rule h1 h2 h3 h4 h5 h6 h7 h8 h9 ratio_4_6 croppedCanvas_400_600 t)+
qed
section \<open>Properties of the print sheet\<close>

text \<open>The constants of \<^verbatim>\<open>createPrintSheet\<close>, as the doubles they are computed to.\<close>

lemma fl_254: "fl (127 / 50) = 2859785763380265 / 1125899906842624"
  using fl_eq [of "1" "127 / 50" "5719571526760530"] by simp

lemma fl_cm: "fl (1125899906842624 / 2859785763380265) = 1773070719437203 / 4503599627370496"
  using fl_eq [of "- 2" "1125899906842624 / 2859785763380265" "7092282877748812"] by simp

lemma fl_01: "fl (1 / 10) = 3602879701896397 / 36028797018963968"
  using fl_eq [of "- 4" "1 / 10" "7205759403792794"] by simp

lemma fl_pad1: "fl (6388160505087140106607653457591 / 162259276829213363391578010288128) = 2836913151099525 / 72057594037927936"
  using fl_eq [of "- 5" "6388160505087140106607653457591 / 162259276829213363391578010288128" "5673826302199050"] by simp

lemma fl_pad2: "fl (212768486332464375 / 18014398509481984) = 831126899736189 / 70368744177664"
  using fl_eq [of "3" "212768486332464375 / 18014398509481984" "6649015197889512"] by simp

lemma fl_numW: "fl (83611366113460611 / 70368744177664) = 653213797761411 / 549755813888"
  using fl_eq [of "10" "83611366113460611 / 70368744177664" "5225710382091288"] by simp

lemma fl_numH: "fl (125832612620059011 / 70368744177664) = 983067286094211 / 549755813888"
  using fl_eq [of "10" "125832612620059011 / 70368744177664" "7864538288753688"] by simp

lemma CM_TO_INCH_eq: "CM_TO_INCH = Fin (1773070719437203 / 4503599627370496)"
  by (simp add: CM_TO_INCH_def double_of_nonneg fl_254 js_div_pos fl_cm)

lemma padding_eq: "padding = Fin (831126899736189 / 70368744177664)"
  by (simp add: padding_def double_of_nonneg fl_01 CM_TO_INCH_eq DPI_def js_mul_nonneg
      fl_pad1 fl_pad2)

lemma paper_eq: "paperWidthPx = Fin 1200" "paperHeightPx = Fin 1800"
  using fl_int [of 1200] fl_int [of 1800]
  by (simp_all add: paperWidthPx_def paperHeightPx_def PAPER_WIDTH_INCHES_def
      PAPER_HEIGHT_INCHES_def DPI_def js_mul_nonneg)

lemma numerator_eq:
  "js_sub (Fin 1200) padding = Fin (653213797761411 / 549755813888)"
  "js_sub (Fin 1800) padding = Fin (983067286094211 / 549755813888)"
  by (simp_all add: padding_eq js_sub_less fl_numW fl_numH)

lemma portraitPx_cases:
  assumes "0 \<le> x"
  shows "portraitPx (Fin x) = PosInf
         \<or> portraitPx (Fin x) = Fin (fl (fl (x * (1773070719437203 / 4503599627370496)) * 300))"
proof -
  let ?c = "1773070719437203 / 4503599627370496 :: rat"
  have c: "0 \<le> ?c" by simp
  from js_mul_nonneg_cases [OF assms c] show ?thesis
  proof
    assume "js_mul (Fin x) (Fin ?c) = PosInf"
    then show ?thesis
      by (simp add: portraitPx_def CM_TO_INCH_eq DPI_def js_mul_def is_inf_def is_zero_def
          signbit_def signed_inf_def)
  next
    assume a: "js_mul (Fin x) (Fin ?c) = Fin (fl (x * ?c)) \<and> fl (x * ?c) < 2 ^ 1024"
    from assms have "0 \<le> fl (x * ?c)" by (intro fl_nonneg) simp
    from js_mul_nonneg_cases [OF this, of 300] a show ?thesis
      by (auto simp: portraitPx_def CM_TO_INCH_eq DPI_def)
  qed
qed

text \<open>A count of zero: the denominator \<^verbatim>\<open>portraitPx + padding\<close> is infinite, or large
  enough for the quotient to stay below 1.\<close>

lemma gridCount_zero:
  assumes num: "js_sub (Fin P) padding = Fin n" "0 < n"
    and den: "js_add q padding = PosInf
              \<or> (\<exists>d. js_add q padding = Fin d \<and> n * 256 \<le> d * 255)"
  shows "gridCount (Fin P) q = Fin 0"
  using den
proof
  assume "js_add q padding = PosInf"
  with num show ?thesis
    by (simp add: gridCount_def js_div_def is_inf_def signbit_def signed_fin_def js_floor_def)
next
  assume "\<exists>d. js_add q padding = Fin d \<and> n * 256 \<le> d * 255"
  then obtain d where d: "js_add q padding = Fin d" "n * 256 \<le> d * 255" by blast
  with num(2) have dpos: "0 < d" by linarith
  with num(2) have q0: "0 \<le> n / d" by simp
  from d(2) dpos have "n / d \<le> of_int 255 * 2 powi (- 8)" by (simp add: field_simps)
  then have "fl (n / d) \<le> of_int 255 * 2 powi (- 8)" by (rule fl_dyadic_le) simp_all
  then have lt: "fl (n / d) < 1" by simp
  have ge: "0 \<le> fl (n / d)" using q0 by (rule fl_nonneg)
  from lt have "fl (n / d) < 2 ^ 1024" by simp
  with num(2) dpos have "js_div (Fin n) (Fin d) = Fin (fl (n / d))"
    by (simp add: js_div_pos less_imp_le)
  moreover from ge lt have "\<lfloor>fl (n / d)\<rfloor> = 0" by (intro floor_unique) simp_all
  ultimately show ?thesis
    by (simp add: gridCount_def num(1) d(1) js_floor_def)
qed

lemma gridCount_oversized:
  assumes num: "js_sub (Fin P) padding = Fin n" "0 < n"
    and x: "0 \<le> x" "of_int k * 2 powi (- 8) \<le> x * (1773070719437203 / 4503599627370496)"
    and k: "0 \<le> k" "k \<le> 2 ^ 53"
    and D: "of_int D \<le> of_int k * 2 powi (- 8) * (300 :: rat)" "0 \<le> D" "D \<le> 2 ^ 53"
    and big: "n * 256 \<le> of_int D * 255"
  shows "gridCount (Fin P) (portraitPx (Fin x)) = Fin 0"
proof -
  from portraitPx_cases [OF x(1)] show ?thesis
  proof
    assume "portraitPx (Fin x) = PosInf"
    then have "js_add (portraitPx (Fin x)) padding = PosInf"
      by (simp add: padding_eq js_add_def is_inf_def)
    then show ?thesis by (intro gridCount_zero [OF num]) simp
  next
    let ?pw = "fl (fl (x * (1773070719437203 / 4503599627370496)) * 300)"
    assume pw: "portraitPx (Fin x) = Fin ?pw"
    from x(2) k have "of_int k * 2 powi (- 8) \<le> fl (x * (1773070719437203 / 4503599627370496))"
      by (intro fl_dyadic_ge) simp_all
    with D(1) have "of_int D \<le> fl (x * (1773070719437203 / 4503599627370496)) * 300" by linarith
    with D have ge: "of_int D \<le> ?pw" by (intro fl_int_ge) simp_all
    with D(2) have pos: "0 \<le> ?pw" by simp
    have p: "(0::rat) \<le> 831126899736189 / 70368744177664" by simp
    from ge have "of_int D \<le> ?pw + 831126899736189 / 70368744177664" by simp
    with D have "of_int D \<le> fl (?pw + 831126899736189 / 70368744177664)" by (intro fl_int_ge) simp_all
    with big have b: "n * 256 \<le> fl (?pw + 831126899736189 / 70368744177664) * 255" by linarith
    from js_add_nonneg_cases [OF pos p] b
    have "js_add (portraitPx (Fin x)) padding = PosInf
          \<or> (\<exists>d. js_add (portraitPx (Fin x)) padding = Fin d \<and> n * 256 \<le> d * 255)"
      unfolding pw padding_eq by blast
    then show ?thesis by (rule gridCount_zero [OF num])
  qed
qed

lemma gridCount_width_oversized:
  assumes "1200 \<le> x * (15000 / 127)"
  shows "gridCount paperWidthPx (portraitPx (Fin x)) = Fin 0"
proof -
  from assms have x: "1016 / 100 \<le> x" by simp
  then have x0: "0 \<le> x" by simp
  have n: "(0::rat) < 653213797761411 / 549755813888" by simp
  from x have "of_int 1023 * 2 powi (- 8) \<le> x * (1773070719437203 / 4503599627370496)" by simp
  from gridCount_oversized [OF numerator_eq(1) n x0 this, of 1198] show ?thesis
    by (simp add: paper_eq)
qed

lemma gridCount_height_oversized:
  assumes "1800 \<le> x * (15000 / 127)"
  shows "gridCount paperHeightPx (portraitPx (Fin x)) = Fin 0"
proof -
  from assms have x: "1524 / 100 \<le> x" by simp
  then have x0: "0 \<le> x" by simp
  have n: "(0::rat) < 983067286094211 / 549755813888" by simp
  from x have "of_int 1535 * 2 powi (- 8) \<le> x * (1773070719437203 / 4503599627370496)" by simp
  from gridCount_oversized [OF numerator_eq(2) n x0 this, of 1798] show ?thesis
    by (simp add: paper_eq)
qed

text \<open>
  Claim C8, amended. When the computed grid has zero columns or zero rows,
  \<^verbatim>\<open>createPrintSheet\<close> settles with an error and never with a sheet; with a 2D context
  and a portrait that loads it is the capacity error. No portrait has been drawn at
  that moment, but the white background has: the call of \<^verbatim>\<open>fillRect\<close> precedes the
  capacity check. A cell at least as wide as the paper (1200 pixels) or at least as
  tall (1800 pixels) gives a count of zero.
\<close>

theorem print_sheet_capacity_error:
  assumes "js_strict_eq (gridCount paperWidthPx (portraitPx targetPortraitWidthCm)) (Fin 0)
           \<or> js_strict_eq (gridCount paperHeightPx (portraitPx targetPortraitHeightCm)) (Fin 0)"
  shows "(\<exists>message c.
            createPrintSheet env portraitDataUrl targetPortraitWidthCm targetPortraitHeightCm
              = Some (Inl message, c)
            \<and> list_all (\<lambda>op. \<exists>color r. op = FillRect color r) (ops c)
            \<and> (getContext env \<and> decode env portraitDataUrl \<noteq> None \<longrightarrow>
                 message = ''Portrait size is too large to fit on a 4x6 inch paper.''
                 \<and> ops c = [FillRect ''#FFFFFF'' (Fin 0, Fin 0, Fin 1200, Fin 1800)]))
         \<and> (\<forall>x. 1200 \<le> x * (15000 / 127) \<longrightarrow>
               gridCount paperWidthPx (portraitPx (Fin x)) = Fin 0)
         \<and> (\<forall>x. 1800 \<le> x * (15000 / 127) \<longrightarrow>
               gridCount paperHeightPx (portraitPx (Fin x)) = Fin 0)"
proof -
  have a: "\<exists>message c.
            createPrintSheet env portraitDataUrl targetPortraitWidthCm targetPortraitHeightCm
              = Some (Inl message, c)
            \<and> list_all (\<lambda>op. \<exists>color r. op = FillRect color r) (ops c)
            \<and> (getContext env \<and> decode env portraitDataUrl \<noteq> None \<longrightarrow>
                 message = ''Portrait size is too large to fit on a 4x6 inch paper.''
                 \<and> ops c = [FillRect ''#FFFFFF'' (Fin 0, Fin 0, Fin 1200, Fin 1800)])"
  proof (cases "getContext env")
    case False
    then show ?thesis by (simp add: createPrintSheet_def Let_def)
  next
    case True
    show ?thesis
    proof (cases "decode env portraitDataUrl")
      case None
      with True show ?thesis by (simp add: createPrintSheet_def Let_def)
    next
      case (Some img)
      with True assms show ?thesis
        by (auto simp: createPrintSheet_def Let_def paper_eq)
    qed
  qed
  have w: "gridCount paperWidthPx (portraitPx (Fin x)) = Fin 0" if "1200 \<le> x * (15000 / 127)"
    for x
    using that by (rule gridCount_width_oversized)
  have h: "gridCount paperHeightPx (portraitPx (Fin x)) = Fin 0" if "1800 \<le> x * (15000 / 127)"
    for x
    using that by (rule gridCount_height_oversized)
  from a w h show ?thesis by blast
qed

lemma gridCount_20cm: "gridCount paperWidthPx (portraitPx (Fin 20)) = Fin 0"
  by (rule gridCount_width_oversized) simp

theorem print_sheet_capacity_error_witness:
  "(js_strict_eq (gridCount paperWidthPx (portraitPx (Fin 20))) (Fin 0)
    \<or> js_strict_eq (gridCount paperHeightPx (portraitPx (Fin 3))) (Fin 0))
   \<and> (\<exists>message c.
         createPrintSheet testBrowser ''data:portrait'' (Fin 20) (Fin 3) = Some (Inl message, c)
         \<and> list_all (\<lambda>op. \<exists>color r. op = FillRect color r) (ops c)
         \<and> (getContext testBrowser \<and> decode testBrowser ''data:portrait'' \<noteq> None \<longrightarrow>
              message = ''Portrait size is too large to fit on a 4x6 inch paper.''
              \<and> ops c = [FillRect ''#FFFFFF'' (Fin 0, Fin 0, Fin 1200, Fin 1800)]))
   \<and> getContext testBrowser \<and> decode testBrowser ''data:portrait'' \<noteq> None
   \<and> (1200::rat) \<le> 20 * (15000 / 127)
   \<and> gridCount paperWidthPx (portraitPx (Fin 20)) = Fin 0"
proof -
  have h1: "js_strict_eq (gridCount paperWidthPx (portraitPx (Fin 20))) (Fin 0)
    \<or> js_strict_eq (gridCount paperHeightPx (portraitPx (Fin 3))) (Fin 0)"
    by (simp add: gridCount_20cm js_strict_eq_def is_zero_def)
  have b: "getContext testBrowser" "decode testBrowser ''data:portrait'' \<noteq> None"
    by (simp_all add: testBrowser_def)
  have n: "(1200::rat) \<le> 20 * (15000 / 127)" by simp
  note t = print_sheet_capacity_error [OF h1, of testBrowser "''data:portrait''"]
  from t have t1: "\<exists>message c.
         createPrintSheet testBrowser ''data:portrait'' (Fin 20) (Fin 3) = Some (Inl message, c)
         \<and> list_all (\<lambda>op. \<exists>color r. op = FillRect color r) (ops c)
         \<and> (getContext testBrowser \<and> decode testBrowser ''data:portrait'' \<noteq> None \<longrightarrow>
              message = ''Portrait size is too large to fit on a 4x6 inch paper.''
              \<and> ops c = [FillRect ''#FFFFFF'' (Fin 0, Fin 0, Fin 1200, Fin 1800)])"
    by (rule conjunct1)
  from t n have t2: "gridCount paperWidthPx (portraitPx (Fin 20)) = Fin 0" by blast
  show ?thesis by (intro conjI) (rule h1 t1 b n t2)+
qed

text \<open>
  Claim C8 as stated fails on the order of effects: for a cell of 20 cm by 3 cm the
  capacity error is raised when the canvas already holds the white background fill.
\<close>

theorem print_sheet_error_after_background_fill:
  "createPrintSheet testBrowser ''data:portrait'' (Fin 20) (Fin 3)
     = Some (Inl ''Portrait size is too large to fit on a 4x6 inch paper.'',
             \<lparr>width = 1200, height = 1800,
              ops = [FillRect ''#FFFFFF'' (Fin 0, Fin 0, Fin 1200, Fin 1800)]\<rparr>)
   \<and> ops (snd (the (createPrintSheet testBrowser ''data:portrait'' (Fin 20) (Fin 3)))) \<noteq> []"
proof -
  have dims: "canvas_dimension 300 (Fin 1200) = 1200" "canvas_dimension 150 (Fin 1800) = 1800"
    using canvas_dimension_int [of 1200 300] canvas_dimension_int [of 1800 150] by simp_all
  have "createPrintSheet testBrowser ''data:portrait'' (Fin 20) (Fin 3)
     = Some (Inl ''Portrait size is too large to fit on a 4x6 inch paper.'',
             \<lparr>width = 1200, height = 1800,
              ops = [FillRect ''#FFFFFF'' (Fin 0, Fin 0, Fin 1200, Fin 1800)]\<rparr>)"
    by (simp add: createPrintSheet_def Let_def testBrowser_def gridCount_20cm [unfolded paper_eq]
        js_strict_eq_def is_zero_def paper_eq dims)
  then show ?thesis by simp
qed
section \<open>The grid of the print sheet\<close>
















section \<open>Properties of the product scene batch\<close>

lemma ps_awaited_Nil [simp]: "ps_awaited [] = []"
  by (simp add: ps_awaited_def)

lemma ps_awaited_Cons:
  "ps_awaited (w # ws) = (case w of PsAwaiting a r \<Rightarrow> [a] | _ \<Rightarrow> []) @ ps_awaited ws"
  by (simp add: ps_awaited_def)

lemma ps_awaited_update:
  "i < length ws \<Longrightarrow>
   mset (ps_awaited (ws[i := w])) + mset (ps_awaited [ws ! i])
     = mset (ps_awaited ws) + mset (ps_awaited [w])"
proof (induction ws arbitrary: i)
  case Nil
  then show ?case by simp
next
  case (Cons a ws)
  show ?case
  proof (cases i)
    case 0
    then show ?thesis by (simp add: ps_awaited_Cons)
  next
    case (Suc j)
    with Cons.prems have "j < length ws" by simp
    from Cons.IH [OF this] show ?thesis using Suc by (simp add: ps_awaited_Cons)
  qed
qed

lemma ps_length_awaited: "length (ps_awaited ws) \<le> length ws"
  by (induction ws) (auto simp: ps_awaited_Cons split: psWorker.splits)

lemma ps_awaited_all_Exited: "list_all (\<lambda>w. w = PsExited) ws \<Longrightarrow> ps_awaited ws = []"
  by (induction ws) (auto simp: ps_awaited_Cons)

lemma ps_shift_truthy: "[] \<notin> set q \<Longrightarrow> ps_shift q = (case q of [] \<Rightarrow> (None, []) | a # rest \<Rightarrow> (Some a, rest))"
  by (cases q) auto

lemma ps_resume_inv:
  assumes inv: "ps_inv jobs work c s" and i: "i < length (ps_workers s)"
    and h: "ps_workers s ! i = PsAtLoopHead"
    and up: "\<not> falsy uploadedImage" and known: "set jobs \<subseteq> angle_id ` set angleOptions"
    and ne: "[] \<notin> set jobs"
  shows "ps_inv jobs work c (ps_resume angleOptions uploadedImage i s)"
proof (cases "ps_queue s")
  case Nil
  have "set ((ps_workers s)[i := PsExited]) \<subseteq> insert PsExited (set (ps_workers s))"
    by (rule set_update_subset_insert)
  with ps_awaited_update [OF i, of PsExited] h inv Nil show ?thesis
    by (auto simp: ps_inv_def ps_resume_def ps_unsettled_def ps_awaited_Cons)
next
  case (Cons a rest)
  from inv have sub: "ps_unsettled s \<subseteq># mset jobs" by (simp add: ps_inv_def)
  have "a \<in># ps_unsettled s" by (simp add: ps_unsettled_def Cons)
  with sub have aJ: "a \<in> set jobs" by (metis mset_subset_eqD set_mset_mset)
  with ne have an: "a \<noteq> []" by auto
  from aJ known obtain ang where "find (\<lambda>x. angle_id x = a) angleOptions = Some ang"
    by (cases "find (\<lambda>x. angle_id x = a) angleOptions") (auto simp: find_None_iff)
  with up have beg: "handleGenerateSingle angleOptions uploadedImage a (ps_generatedImages s)
      = Some ((ps_generatedImages s)(a \<mapsto> pendingImage))"
    by (simp add: handleGenerateSingle_def)
  let ?s' = "ps_resume angleOptions uploadedImage i s"
  from Cons an beg have s': "?s' = s\<lparr>ps_generatedImages := (ps_generatedImages s)(a \<mapsto> pendingImage),
       ps_queue := rest, ps_workers := (ps_workers s)[i := PsAwaiting a True],
       ps_inFlight := a # ps_inFlight s\<rparr>"
    by (simp add: ps_resume_def)
  from ps_awaited_update [OF i, of "PsAwaiting a True"] h
  have aw: "mset (ps_awaited ((ps_workers s)[i := PsAwaiting a True]))
      = mset (ps_awaited (ps_workers s)) + {#a#}"
    by (simp add: ps_awaited_Cons)
  then have u: "ps_unsettled ?s' = ps_unsettled s"
    by (simp add: s' ps_unsettled_def Cons)
  have ws: "set ((ps_workers s)[i := PsAwaiting a True]) \<subseteq> insert (PsAwaiting a True) (set (ps_workers s))"
    by (rule set_update_subset_insert)
  have img: "ps_generatedImages ?s' a' =
      Some (if a' \<in># ps_unsettled ?s' then pendingImage else settledImage (work a'))"
    if "a' \<in> set jobs" for a'
  proof (cases "a' = a")
    case True
    then show ?thesis by (simp add: u) (simp add: s' ps_unsettled_def Cons)
  next
    case False
    with inv that show ?thesis by (simp add: u) (simp add: s' ps_inv_def)
  qed
  from inv have ex: "PsExited \<in> set (ps_workers ?s') \<longrightarrow> ps_queue ?s' = []"
    using ws Cons by (auto simp: s' ps_inv_def)
  from inv ws have st: "\<forall>w\<in>set (ps_workers ?s'). \<forall>a. w \<noteq> PsAwaiting a False"
    by (auto simp: s' ps_inv_def)
  from inv aw have fl: "length (ps_workers ?s') = c"
      "mset (ps_inFlight ?s') = mset (ps_awaited (ps_workers ?s'))"
    by (simp_all add: s' ps_inv_def)
  from sub img ex st fl show ?thesis by (simp add: ps_inv_def u)
qed

lemma ps_settle_inv:
  assumes inv: "ps_inv jobs work c s" and d: "distinct jobs"
    and i: "i < length (ps_workers s)" and w: "ps_workers s ! i = PsAwaiting a r"
  shows "ps_inv jobs work c (ps_settle work i a r s)"
proof -
  from i w have "PsAwaiting a r \<in> set (ps_workers s)" by (metis nth_mem)
  with inv have r: "r" by (auto simp: ps_inv_def)
  let ?s' = "ps_settle work i a r s"
  from r have s': "?s' = s\<lparr>ps_generatedImages := (ps_generatedImages s)(a \<mapsto> settledImage (work a)),
       ps_workers := (ps_workers s)[i := PsAtLoopHead],
       ps_inFlight := remove1 a (ps_inFlight s)\<rparr>"
    by (simp add: ps_settle_def handleGenerateSingle_settled_def)
  from ps_awaited_update [OF i, of PsAtLoopHead] w
  have aw: "mset (ps_awaited ((ps_workers s)[i := PsAtLoopHead])) + {#a#}
      = mset (ps_awaited (ps_workers s))"
    by (simp add: ps_awaited_Cons)
  then have u: "ps_unsettled ?s' + {#a#} = ps_unsettled s"
    by (simp add: s' ps_unsettled_def)
  from inv have sub: "ps_unsettled s \<subseteq># mset jobs" by (simp add: ps_inv_def)
  have "count (mset jobs) a \<le> 1" using d by (simp add: distinct_count_atmost_1)
  moreover have "count (ps_unsettled s) a \<le> count (mset jobs) a"
    using sub by (rule mset_subset_eq_count)
  ultimately have c1: "count (ps_unsettled s) a \<le> 1" by linarith
  have "count (ps_unsettled ?s' + {#a#}) a \<le> 1" using c1 by (simp only: u)
  then have notin: "a \<notin># ps_unsettled ?s'" by (simp add: not_in_iff)
  have other: "a' \<in># ps_unsettled ?s' \<longleftrightarrow> a' \<in># ps_unsettled s" if "a' \<noteq> a" for a'
    by (subst u [symmetric]) (use that in simp)
  have "ps_unsettled ?s' \<subseteq># ps_unsettled ?s' + {#a#}" by simp
  then have "ps_unsettled ?s' \<subseteq># ps_unsettled s" by (simp only: u)
  then have sub': "ps_unsettled ?s' \<subseteq># mset jobs"
    using sub by (rule subset_mset.order_trans)
  have img: "ps_generatedImages ?s' a' =
      Some (if a' \<in># ps_unsettled ?s' then pendingImage else settledImage (work a'))"
    if "a' \<in> set jobs" for a'
  proof (cases "a' = a")
    case True
    with notin show ?thesis by (simp add: s')
  next
    case False
    with inv that other [OF False] show ?thesis by (simp add: s' ps_inv_def)
  qed
  have ws: "set ((ps_workers s)[i := PsAtLoopHead]) \<subseteq> insert PsAtLoopHead (set (ps_workers s))"
    by (rule set_update_subset_insert)
  with inv have ex: "PsExited \<in> set (ps_workers ?s') \<longrightarrow> ps_queue ?s' = []"
    by (auto simp: s' ps_inv_def)
  from inv ws have st: "\<forall>w\<in>set (ps_workers ?s'). \<forall>a. w \<noteq> PsAwaiting a False"
    by (auto simp: s' ps_inv_def)
  from aw have "mset (ps_awaited ((ps_workers s)[i := PsAtLoopHead]))
      = mset (ps_awaited (ps_workers s)) - {#a#}"
    by (metis add_mset_add_single add_mset_remove_trivial)
  with inv have fl: "length (ps_workers ?s') = c"
      "mset (ps_inFlight ?s') = mset (ps_awaited (ps_workers ?s'))"
    by (simp_all add: s' ps_inv_def)
  from sub' img ex st fl show ?thesis by (simp add: ps_inv_def)
qed

lemma ps_step_inv:
  assumes "ps_inv jobs work c s" "distinct jobs" "\<not> falsy uploadedImage"
    "set jobs \<subseteq> angle_id ` set angleOptions" "[] \<notin> set jobs"
    "ps_step angleOptions uploadedImage work ev s = Some s'"
  shows "ps_inv jobs work c s'"
proof (cases ev)
  case (Resume i)
  with assms(6) have "i < length (ps_workers s)" "ps_workers s ! i = PsAtLoopHead"
    "s' = ps_resume angleOptions uploadedImage i s"
    by (auto simp: ps_step_def split: if_splits)
  with assms(1,3,4,5) show ?thesis by (simp add: ps_resume_inv)
next
  case (Settle i)
  with assms(6) obtain a r where "i < length (ps_workers s)" "ps_workers s ! i = PsAwaiting a r"
      "s' = ps_settle work i a r s"
    by (auto simp: ps_step_def split: if_splits psWorker.splits)
  with assms(1,2) show ?thesis by (simp add: ps_settle_inv)
qed

lemma ps_run_inv:
  "ps_inv jobs work c s \<Longrightarrow> distinct jobs \<Longrightarrow> \<not> falsy uploadedImage
   \<Longrightarrow> set jobs \<subseteq> angle_id ` set angleOptions \<Longrightarrow> [] \<notin> set jobs
   \<Longrightarrow> ps_run angleOptions uploadedImage work evs s = Some s'
   \<Longrightarrow> ps_inv jobs work c s'"
proof (induction evs arbitrary: s)
  case Nil
  then show ?case by simp
next
  case (Cons ev evs)
  from Cons.prems(6) obtain s1 where
    s1: "ps_step angleOptions uploadedImage work ev s = Some s1"
      "ps_run angleOptions uploadedImage work evs s1 = Some s'"
    by (auto split: option.splits)
  from Cons.prems(1-5) s1(1) have "ps_inv jobs work c s1" by (rule ps_step_inv)
  from Cons.IH [OF this Cons.prems(2-5) s1(2)] show ?case .
qed

lemma initialStates_apply:
  "initialStates ids m k = (if k \<in> set ids then Some pendingImage else m k)"
  by (induction ids arbitrary: m) auto

lemma ps_awaited_replicate: "ps_awaited (replicate n PsAtLoopHead) = []"
  by (induction n) (auto simp: ps_awaited_Cons)

lemma ps_resume_others:
  "length (ps_workers (ps_resume angleOptions uploadedImage i s)) = length (ps_workers s) \<and>
   (\<forall>j. j \<noteq> i \<longrightarrow> ps_workers (ps_resume angleOptions uploadedImage i s) ! j = ps_workers s ! j)"
  by (simp add: ps_resume_def split: prod.splits option.splits)

lemma ps_spawn_inv:
  "ps_inv jobs work c s \<Longrightarrow> \<not> falsy uploadedImage
   \<Longrightarrow> set jobs \<subseteq> angle_id ` set angleOptions \<Longrightarrow> [] \<notin> set jobs
   \<Longrightarrow> \<forall>j. k \<le> j \<and> j < c \<longrightarrow> ps_workers s ! j = PsAtLoopHead
   \<Longrightarrow> ps_inv jobs work c (ps_spawn angleOptions uploadedImage [k..<c] s)"
proof (induction "c - k" arbitrary: k s)
  case 0
  then show ?case by simp
next
  case (Suc n)
  then have kc: "k < c" by simp
  from Suc.prems(1) have len: "length (ps_workers s) = c" by (simp add: ps_inv_def)
  from Suc.prems(5) kc have hd: "ps_workers s ! k = PsAtLoopHead" by simp
  from kc len have kl: "k < length (ps_workers s)" by simp
  have b: "ps_inv jobs work c (ps_resume angleOptions uploadedImage k s)"
    by (rule ps_resume_inv [OF Suc.prems(1) kl hd Suc.prems(2,3,4)])
  have r: "\<forall>j. Suc k \<le> j \<and> j < c \<longrightarrow>
      ps_workers (ps_resume angleOptions uploadedImage k s) ! j = PsAtLoopHead"
    using Suc.prems(5) ps_resume_others [of angleOptions uploadedImage k s] by auto
  from Suc.hyps(2) have n: "n = c - Suc k" by simp
  from Suc.hyps(1) [OF n b Suc.prems(2,3,4) r] kc show ?case by (simp add: upt_conv_Cons)
qed

text \<open>
  The same properties for the batch of \<^verbatim>\<open>handleGenerateAll\<close>, whose loop is the loop
  of \<^verbatim>\<open>handleGenerateClick\<close>: for selected angles that are pairwise different,
  non-empty and in the table, as the toggles of the component produce them, in every
  state of a run at most \<open>c\<close> requests are in flight, and once all workers have exited
  every selected angle has the entry of its own outcome.
\<close>

lemma handleGenerateAll_batch:
  assumes "distinct selectedAngles"
    and "set selectedAngles \<subseteq> angle_id ` set angleOptions"
    and "[] \<notin> set selectedAngles"
    and "handleGenerateAll c angleOptions uploadedImage selectedAngles = Some s0"
    and "ps_run angleOptions uploadedImage work evs s0 = Some s"
  shows "length (ps_inFlight s) \<le> c"
    and "1 \<le> c \<Longrightarrow> ps_completed s \<Longrightarrow> a \<in> set selectedAngles
         \<Longrightarrow> ps_generatedImages s a = Some (settledImage (work a))"
proof -
  let ?init = "\<lparr>ps_generatedImages = initialStates selectedAngles Map.empty,
      ps_queue = selectedAngles, ps_workers = replicate c PsAtLoopHead, ps_inFlight = []\<rparr>"
  from assms(4) have up: "\<not> falsy uploadedImage"
    and s0: "s0 = ps_spawn angleOptions uploadedImage [0..<c] ?init"
    by (simp_all add: handleGenerateAll_def split: if_splits)
  have i0: "ps_inv selectedAngles work c ?init"
    by (simp add: ps_inv_def ps_unsettled_def ps_awaited_replicate initialStates_apply)
  have r: "\<forall>j. 0 \<le> j \<and> j < c \<longrightarrow> ps_workers ?init ! j = PsAtLoopHead" by simp
  from ps_spawn_inv [OF i0 up assms(2,3) r] s0 have "ps_inv selectedAngles work c s0" by simp
  from this assms(1) up assms(2,3,5) have inv: "ps_inv selectedAngles work c s" by (rule ps_run_inv)
  then have "size (mset (ps_inFlight s)) = size (mset (ps_awaited (ps_workers s)))"
    by (simp only: ps_inv_def)
  then have "length (ps_inFlight s) = length (ps_awaited (ps_workers s))" by simp
  with ps_length_awaited [of "ps_workers s"] inv show "length (ps_inFlight s) \<le> c"
    by (simp add: ps_inv_def)
  show "ps_generatedImages s a = Some (settledImage (work a))"
    if c: "1 \<le> c" and comp: "ps_completed s" and a: "a \<in> set selectedAngles"
  proof -
    from inv c have "ps_workers s \<noteq> []" by (auto simp: ps_inv_def)
    with comp have "PsExited \<in> set (ps_workers s)"
      by (cases "ps_workers s") (auto simp: ps_completed_def)
    with inv have q: "ps_queue s = []" by (simp add: ps_inv_def)
    from comp have "ps_awaited (ps_workers s) = []"
      by (simp add: ps_completed_def ps_awaited_all_Exited)
    with q have "ps_unsettled s = {#}" by (simp add: ps_unsettled_def)
    with inv a show ?thesis by (simp add: ps_inv_def)
  qed
qed

end
